theory Spec2Isabelle
  imports Main "HOL-Library.AList" "HOL-Library.Sublist"
begin

section \<open>The file tree\<close>

text \<open>
  The script \<^verbatim>\<open>build-vercel.js\<close> works on the file system below the current
  working directory, through Node's synchronous \<^verbatim>\<open>fs\<close> functions. The state of the
  model is that tree: a regular file holds its bytes, a directory holds its entries in
  listing order (the order \<^verbatim>\<open>readdirSync\<close> reports). A path is the list of its
  components, so \<^verbatim>\<open>path.join\<close> on components is list append. Names and contents
  are byte strings, as on Linux. Symbolic links, special files, permissions and disk space
  are outside the model; standard output is not modelled.
\<close>

type_synonym path = "string list"

datatype node = File string | Dir "(string \<times> node) list"

datatype error = ENOENT | ENOTDIR | EISDIR | EEXIST | EINVAL

text \<open>
  A run either finishes or stops at the first exception; in both cases the file system
  is left in the state reached so far.
\<close>

datatype result = Done node | Crashed error node

fun state_of :: "result \<Rightarrow> node" where
  "state_of (Done s) = s"
| "state_of (Crashed e s) = s"

fun lookup :: "node \<Rightarrow> path \<Rightarrow> node option" where
  "lookup n [] = Some n"
| "lookup (File b) (x # xs) = None"
| "lookup (Dir es) (x # xs) = (case map_of es x of None \<Rightarrow> None | Some c \<Rightarrow> lookup c xs)"

fun height :: "node \<Rightarrow> nat" where
  "height (File b) = 1"
| "height (Dir es) = Suc (fold max (map (\<lambda>e. height (snd e)) es) 0)"

section \<open>Bytes read as UTF-8\<close>

text \<open>
  Node hands file names and, with the \<^verbatim>\<open>'utf8'\<close> option, file contents to the script
  as strings decoded from UTF-8, and encodes a string as UTF-8 when it writes it or uses
  it as a path. The model keeps a string as its UTF-8 encoding, so decoding followed by
  encoding is one function on bytes, \<open>utf8_text\<close>: every well-formed sequence is kept,
  and every maximal ill-formed part is replaced by U+FFFD (the bytes EF BF BD), the way
  the decoder of the WHATWG Encoding standard does it. A text without ill-formed bytes is
  returned as it is, a byte order mark included.
\<close>

definition continuation :: "nat \<Rightarrow> nat \<Rightarrow> char \<Rightarrow> bool" where
  "continuation lo hi c = (lo \<le> (of_char c :: nat) \<and> (of_char c :: nat) \<le> hi)"

definition replacement :: string where
  "replacement = [CHR 0xEF, CHR 0xBF, CHR 0xBD]"

fun utf8_text :: "string \<Rightarrow> string" where
  "utf8_text [] = []"
| "utf8_text (b # bs) =
     (if (of_char b :: nat) < 0x80 then b # utf8_text bs
      else if 0xC2 \<le> (of_char b :: nat) \<and> (of_char b :: nat) \<le> 0xDF then
        (case bs of
           [] \<Rightarrow> replacement
         | c1 # r1 \<Rightarrow>
             if continuation 0x80 0xBF c1 then b # c1 # utf8_text r1
             else replacement @ utf8_text (c1 # r1))
      else if 0xE0 \<le> (of_char b :: nat) \<and> (of_char b :: nat) \<le> 0xEF then
        (case bs of
           [] \<Rightarrow> replacement
         | c1 # r1 \<Rightarrow>
             if continuation (if of_char b = (0xE0 :: nat) then 0xA0 else 0x80)
                  (if of_char b = (0xED :: nat) then 0x9F else 0xBF) c1 then
               (case r1 of
                  [] \<Rightarrow> replacement
                | c2 # r2 \<Rightarrow>
                    if continuation 0x80 0xBF c2 then b # c1 # c2 # utf8_text r2
                    else replacement @ utf8_text (c2 # r2))
             else replacement @ utf8_text (c1 # r1))
      else if 0xF0 \<le> (of_char b :: nat) \<and> (of_char b :: nat) \<le> 0xF4 then
        (case bs of
           [] \<Rightarrow> replacement
         | c1 # r1 \<Rightarrow>
             if continuation (if of_char b = (0xF0 :: nat) then 0x90 else 0x80)
                  (if of_char b = (0xF4 :: nat) then 0x8F else 0xBF) c1 then
               (case r1 of
                  [] \<Rightarrow> replacement
                | c2 # r2 \<Rightarrow>
                    if continuation 0x80 0xBF c2 then
                      (case r2 of
                         [] \<Rightarrow> replacement
                       | c3 # r3 \<Rightarrow>
                           if continuation 0x80 0xBF c3 then b # c1 # c2 # c3 # utf8_text r3
                           else replacement @ utf8_text (c3 # r3))
                    else replacement @ utf8_text (c2 # r2))
             else replacement @ utf8_text (c1 # r1))
      else replacement @ utf8_text bs)"

section \<open>Node's file-system functions\<close>

text \<open>
  \<open>alter f p s\<close> walks to the parent directory of \<open>p\<close> and lets \<open>f\<close> decide, from
  the entry now at \<open>p\<close>, the entry to leave there (\<open>None\<close> removes it). A missing
  parent is \<open>ENOENT\<close>, a regular file on the way is \<open>ENOTDIR\<close>. A new entry goes to
  the end of its directory's listing.
\<close>

fun alter :: "(node option \<Rightarrow> error + node option) \<Rightarrow> path \<Rightarrow> node \<Rightarrow> error + node" where
  "alter f [] n = Inl EINVAL"
| "alter f (x # xs) (File b) = Inl ENOTDIR"
| "alter f (x # xs) (Dir es) =
     (if xs = [] then
        (case f (map_of es x) of
           Inl e \<Rightarrow> Inl e
         | Inr None \<Rightarrow> Inr (Dir (AList.delete x es))
         | Inr (Some c) \<Rightarrow> Inr (Dir (AList.update x c es)))
      else
        (case map_of es x of
           None \<Rightarrow> Inl ENOENT
         | Some c \<Rightarrow>
             (case alter f xs c of
                Inl e \<Rightarrow> Inl e
              | Inr c' \<Rightarrow> Inr (Dir (AList.update x c' es)))))"

text \<open>\<^verbatim>\<open>fs.existsSync(p)\<close>: false on every failure, also below a regular file.\<close>

definition existsSync :: "path \<Rightarrow> node \<Rightarrow> bool" where
  "existsSync p s = (lookup s p \<noteq> None)"

text \<open>\<^verbatim>\<open>fs.statSync(p).isDirectory()\<close>.\<close>

definition statSync_isDirectory :: "path \<Rightarrow> node \<Rightarrow> error + bool" where
  "statSync_isDirectory p s =
     (case lookup s p of
        None \<Rightarrow> Inl ENOENT
      | Some (File b) \<Rightarrow> Inr False
      | Some (Dir es) \<Rightarrow> Inr True)"

text \<open>\<^verbatim>\<open>fs.readdirSync(p)\<close>: the names of the entries, decoded as UTF-8. A name that
  is not well-formed UTF-8 is listed with U+FFFD in it, and is then not the name of that
  entry any more.\<close>

definition readdirSync :: "path \<Rightarrow> node \<Rightarrow> error + string list" where
  "readdirSync p s =
     (case lookup s p of
        None \<Rightarrow> Inl ENOENT
      | Some (File b) \<Rightarrow> Inl ENOTDIR
      | Some (Dir es) \<Rightarrow> Inr (map (\<lambda>e. utf8_text (fst e)) es))"

text \<open>\<^verbatim>\<open>fs.readFileSync(p, 'utf8')\<close>: the content, decoded as UTF-8.\<close>

definition readFileSync :: "path \<Rightarrow> node \<Rightarrow> error + string" where
  "readFileSync p s =
     (case lookup s p of
        None \<Rightarrow> Inl ENOENT
      | Some (File b) \<Rightarrow> Inr (utf8_text b)
      | Some (Dir es) \<Rightarrow> Inl EISDIR)"

text \<open>\<^verbatim>\<open>fs.writeFileSync(p, data)\<close>: creates or truncates a regular file.\<close>

definition writeFileSync :: "path \<Rightarrow> string \<Rightarrow> node \<Rightarrow> error + node" where
  "writeFileSync p data s =
     alter (\<lambda>old. case old of Some (Dir es) \<Rightarrow> Inl EISDIR | _ \<Rightarrow> Inr (Some (File data))) p s"

text \<open>\<^verbatim>\<open>fs.rmSync(p, { recursive: true })\<close>: removes a file, or a directory with
  everything below it; a missing path is an error (no \<^verbatim>\<open>force\<close>).\<close>

definition rmSync :: "path \<Rightarrow> node \<Rightarrow> error + node" where
  "rmSync p s = alter (\<lambda>old. case old of None \<Rightarrow> Inl ENOENT | Some c \<Rightarrow> Inr None) p s"

text \<open>
  \<^verbatim>\<open>fs.copyFileSync(src, dest)\<close>: \<open>dest\<close> is overwritten if it exists. The call opens
  \<open>src\<close>, then opens \<open>dest\<close> for writing (creating or truncating it), then copies;
  when the copy fails after \<open>dest\<close> was opened, which is what happens when \<open>src\<close> is
  a directory, it removes \<open>dest\<close> before it throws. This is the one call that changes
  the tree and throws, so it returns the result with the state it leaves.
\<close>

definition copyFileSync :: "path \<Rightarrow> path \<Rightarrow> node \<Rightarrow> result" where
  "copyFileSync src dest s =
     (case lookup s src of
        None \<Rightarrow> Crashed ENOENT s
      | Some (File b) \<Rightarrow>
          (case writeFileSync dest b s of Inl e \<Rightarrow> Crashed e s | Inr s' \<Rightarrow> Done s')
      | Some (Dir es) \<Rightarrow>
          (case writeFileSync dest [] s of
             Inl e \<Rightarrow> Crashed e s
           | Inr s1 \<Rightarrow>
               (case rmSync dest s1 of
                  Inl e \<Rightarrow> Crashed EISDIR s1
                | Inr s2 \<Rightarrow> Crashed EISDIR s2)))"

text \<open>\<^verbatim>\<open>fs.mkdirSync(p, { recursive: true })\<close>: creates the missing directories
  along \<open>p\<close>; an existing directory is left as it is.\<close>

fun mkdirSync :: "path \<Rightarrow> node \<Rightarrow> error + node" where
  "mkdirSync [] (Dir es) = Inr (Dir es)"
| "mkdirSync [] (File b) = Inl EEXIST"
| "mkdirSync (x # xs) (File b) = Inl ENOTDIR"
| "mkdirSync (x # xs) (Dir es) =
     (case mkdirSync xs (case map_of es x of None \<Rightarrow> Dir [] | Some c \<Rightarrow> c) of
        Inl e \<Rightarrow> Inl e
      | Inr c' \<Rightarrow> Inr (Dir (AList.update x c' es)))"

section \<open>Sequencing with exceptions\<close>

text \<open>
  \<open>None\<close> is a run that has not returned within its fuel (only \<open>copyRecursive\<close>
  can loop). \<open>attempt\<close> turns the outcome of a call that changes nothing when it
  throws into a result.
\<close>

definition attempt :: "node \<Rightarrow> error + node \<Rightarrow> result option" where
  "attempt s r = (case r of Inl e \<Rightarrow> Some (Crashed e s) | Inr s' \<Rightarrow> Some (Done s'))"

definition andThen :: "result option \<Rightarrow> (node \<Rightarrow> result option) \<Rightarrow> result option" where
  "andThen r k =
     (case r of
        None \<Rightarrow> None
      | Some (Crashed e s) \<Rightarrow> Some (Crashed e s)
      | Some (Done s) \<Rightarrow> k s)"

section \<open>copyRecursive\<close>

text \<open>
  \<^verbatim>\<open>
  function copyRecursive(src, dest) {
    if (!fs.existsSync(src)) return
    const stats = fs.statSync(src)
    if (stats.isDirectory()) {
      if (!fs.existsSync(dest)) {
        fs.mkdirSync(dest, { recursive: true })
      }
      fs.readdirSync(src).forEach((item) => {
        copyRecursive(path.join(src, item), path.join(dest, item))
      })
    } else {
      fs.copyFileSync(src, dest)
    }
  }
  \<close>
  Copying a directory into itself never ends, so the recursion takes fuel: one unit for
  each level of nesting. \<open>copyItems\<close> is the \<^verbatim>\<open>forEach\<close> loop.
\<close>

fun copyRecursive :: "nat \<Rightarrow> path \<Rightarrow> path \<Rightarrow> node \<Rightarrow> result option"
  and copyItems :: "nat \<Rightarrow> path \<Rightarrow> path \<Rightarrow> string list \<Rightarrow> node \<Rightarrow> result option" where
  "copyRecursive 0 src dest s = None"
| "copyRecursive (Suc n) src dest s =
     (if \<not> existsSync src s then Some (Done s)
      else
        (case statSync_isDirectory src s of
           Inl e \<Rightarrow> Some (Crashed e s)
         | Inr True \<Rightarrow>
             andThen
               (if \<not> existsSync dest s then attempt s (mkdirSync dest s) else Some (Done s))
               (\<lambda>s1. case readdirSync src s1 of
                        Inl e \<Rightarrow> Some (Crashed e s1)
                      | Inr items \<Rightarrow> copyItems n src dest items s1)
         | Inr False \<Rightarrow> Some (copyFileSync src dest s)))"
| "copyItems n src dest [] s = Some (Done s)"
| "copyItems n src dest (item # items) s =
     andThen (copyRecursive n (src @ [item]) (dest @ [item]) s) (copyItems n src dest items)"

section \<open>The regular expression of the HTML rewrite\<close>

text \<open>
  \<^verbatim>\<open>html.replace(/src="[^"]*AppEntry[^"]*\.js"/, 'src="/bundle.js"')\<close>.
  The pattern is a sequence of literals and of greedy stars over a negated one-character
  class. \<open>match_here\<close> matches the pattern at the start of the text, a star taking as
  much as it can and giving back on failure, and returns the text after the match.
  \<open>replace\<close> is \<^verbatim>\<open>String.prototype.replace\<close> for a pattern without the
  \<^verbatim>\<open>g\<close> flag and a replacement without \<^verbatim>\<open>$\<close>: the leftmost match is replaced,
  a text without a match is returned as it is. The text is held as its UTF-8 encoding.
  The literals of the pattern are ASCII, and no byte of a character beyond ASCII is an
  ASCII byte, so a star over the characters other than the double quote takes the bytes
  other than the double quote.
\<close>

datatype atom = Lit string | StarNot char

function match_here :: "atom list \<Rightarrow> string \<Rightarrow> string option" where
  "match_here [] s = Some s"
| "match_here (Lit l # as) s =
     (if prefix l s then match_here as (drop (length l) s) else None)"
| "match_here (StarNot c # as) [] = match_here as []"
| "match_here (StarNot c # as) (x # xs) =
     (if x \<noteq> c then
        (case match_here (StarNot c # as) xs of
           Some r \<Rightarrow> Some r
         | None \<Rightarrow> match_here as (x # xs))
      else match_here as (x # xs))"
  by pat_completeness auto
termination
  by (relation "measure (\<lambda>(as, s). length as + length s)") auto

fun replace :: "atom list \<Rightarrow> string \<Rightarrow> string \<Rightarrow> string" where
  "replace re new [] = (case match_here re [] of Some r \<Rightarrow> new @ r | None \<Rightarrow> [])"
| "replace re new (x # xs) =
     (case match_here re (x # xs) of
        Some r \<Rightarrow> new @ r
      | None \<Rightarrow> x # replace re new xs)"

definition AppEntry_re :: "atom list" where
  \<open>AppEntry_re =
     [Lit ''src="'', StarNot (CHR 0x22), Lit ''AppEntry'', StarNot (CHR 0x22), Lit ''.js"'']\<close>

definition src_bundle :: string where
  \<open>src_bundle = ''src="/bundle.js"''\<close>

section \<open>The routing manifest\<close>

text \<open>
  A JavaScript object is the list of its properties in insertion order (no key of the
  manifest is an array index, which would be listed first).
\<close>

datatype json =
    JNull
  | JBool bool
  | JNum int
  | JStr string
  | JArr "json list"
  | JObj "(string \<times> json) list"

definition config :: json where
  "config = JObj
     [(''version'', JNum 3),
      (''routes'', JArr
         [JObj [(''src'', JStr ''^/static/(.*)$''),
                (''headers'', JObj [(''Cache-Control'', JStr ''public, max-age=31536000, immutable'')]),
                (''continue'', JBool True)],
          JObj [(''src'', JStr ''^/assets/(.*)$''),
                (''headers'', JObj [(''Cache-Control'', JStr ''public, max-age=31536000, immutable'')]),
                (''continue'', JBool True)],
          JObj [(''handle'', JStr ''filesystem'')],
          JObj [(''src'', JStr ''/(.*)''),
                (''dest'', JStr ''/index.html'')]])]"

text \<open>
  \<^verbatim>\<open>JSON.stringify(value, null, 2)\<close>: the gap is two spaces; a non-empty object or
  array puts each member on a line of its own, one gap deeper; a key is followed by a
  colon and a space.
\<close>

fun digits :: "nat \<Rightarrow> string" where
  "digits n =
     (if n < 10 then [char_of (48 + n)]
      else digits (n div 10) @ [char_of (48 + n mod 10)])"

definition show_int :: "int \<Rightarrow> string" where
  "show_int i = (if i < 0 then ''-'' @ digits (nat (- i)) else digits (nat i))"

definition hex_digit :: "nat \<Rightarrow> char" where
  "hex_digit n = (if n < 10 then char_of (48 + n) else char_of (87 + n))"

definition quote_char :: "char \<Rightarrow> string" where
  \<open>quote_char c =
     (if c = CHR 0x22 then [CHR 0x5C, CHR 0x22]
      else if c = CHR 0x5C then [CHR 0x5C, CHR 0x5C]
      else if c = CHR 0x08 then [CHR 0x5C, CHR ''b'']
      else if c = CHR 0x0C then [CHR 0x5C, CHR ''f'']
      else if c = CHR 0x0A then [CHR 0x5C, CHR ''n'']
      else if c = CHR 0x0D then [CHR 0x5C, CHR ''r'']
      else if c = CHR 0x09 then [CHR 0x5C, CHR ''t'']
      else if (of_char c :: nat) < 32 then
        [CHR 0x5C, CHR ''u'', CHR ''0'', CHR ''0'',
         hex_digit (of_char c div 16), hex_digit (of_char c mod 16)]
      else [c])\<close>

definition quote :: "string \<Rightarrow> string" where
  \<open>quote s = [CHR 0x22] @ concat (map quote_char s) @ [CHR 0x22]\<close>

fun join :: "string \<Rightarrow> string list \<Rightarrow> string" where
  "join sep [] = []"
| "join sep [x] = x"
| "join sep (x # y # ys) = x @ sep @ join sep (y # ys)"

definition newline :: string where
  "newline = [CHR 0x0A]"

fun stringify :: "string \<Rightarrow> string \<Rightarrow> json \<Rightarrow> string" where
  "stringify gap indent JNull = ''null''"
| "stringify gap indent (JBool b) = (if b then ''true'' else ''false'')"
| "stringify gap indent (JNum i) = show_int i"
| "stringify gap indent (JStr s) = quote s"
| "stringify gap indent (JArr vs) =
     (if vs = [] then ''[]''
      else ''['' @ newline @ indent @ gap
        @ join ('','' @ newline @ indent @ gap) (map (stringify gap (indent @ gap)) vs)
        @ newline @ indent @ '']'')"
| "stringify gap indent (JObj ps) =
     (if ps = [] then ''{}''
      else ''{'' @ newline @ indent @ gap
        @ join ('','' @ newline @ indent @ gap)
            (map (\<lambda>p. quote (fst p) @ '': '' @ stringify gap (indent @ gap) (snd p)) ps)
        @ newline @ indent @ ''}'')"

definition JSON_stringify_2 :: "json \<Rightarrow> string" where
  "JSON_stringify_2 v = stringify ''  '' [] v"

section \<open>The script\<close>

text \<open>\<^verbatim>\<open>const outputDir = '.vercel/output'\<close>, a path of two components.\<close>

definition outputDir :: path where
  "outputDir = [''.vercel'', ''output'']"

definition staticDir :: path where
  "staticDir = outputDir @ [''static'']"

definition jsDir :: path where
  "jsDir = [''dist''] @ [''_expo''] @ [''static''] @ [''js''] @ [''web'']"

definition indexPath :: path where
  "indexPath = staticDir @ [''index.html'']"

text \<open>
  \<^verbatim>\<open>
  if (fs.existsSync(outputDir)) {
    fs.rmSync(outputDir, { recursive: true })
  }
  fs.mkdirSync(staticDir, { recursive: true })
  fs.mkdirSync(path.join(outputDir, 'config'), { recursive: true })
  \<close>
\<close>

definition reset_output :: "node \<Rightarrow> result option" where
  "reset_output s =
     andThen (if existsSync outputDir s then attempt s (rmSync outputDir s) else Some (Done s))
       (\<lambda>s1. andThen (attempt s1 (mkdirSync staticDir s1))
          (\<lambda>s2. attempt s2 (mkdirSync (outputDir @ [''config'']) s2)))"

text \<open>\<^verbatim>\<open>copyRecursive('dist', staticDir)\<close>\<close>

definition mirror_dist :: "nat \<Rightarrow> node \<Rightarrow> result option" where
  "mirror_dist fuel s = copyRecursive fuel [''dist''] staticDir s"

text \<open>
  \<^verbatim>\<open>
  if (fs.existsSync(jsDir)) {
    const files = fs.readdirSync(jsDir)
    const jsFile = files.find((f) => f.startsWith('AppEntry') && f.endsWith('.js'))
    if (jsFile) {
      fs.copyFileSync(path.join(jsDir, jsFile), path.join(staticDir, 'bundle.js'))
    }
  }
  \<close>
\<close>

definition isAppEntry :: "string \<Rightarrow> bool" where
  "isAppEntry f = (prefix ''AppEntry'' f \<and> suffix ''.js'' f)"

definition promote_bundle :: "node \<Rightarrow> result option" where
  "promote_bundle s =
     (if existsSync jsDir s then
        (case readdirSync jsDir s of
           Inl e \<Rightarrow> Some (Crashed e s)
         | Inr files \<Rightarrow>
             (case find isAppEntry files of
                None \<Rightarrow> Some (Done s)
              | Some jsFile \<Rightarrow>
                  Some (copyFileSync (jsDir @ [jsFile]) (staticDir @ [''bundle.js'']) s)))
      else Some (Done s))"

text \<open>
  \<^verbatim>\<open>
  if (fs.existsSync(indexPath)) {
    let html = fs.readFileSync(indexPath, 'utf8')
    html = html.replace(/src="[^"]*AppEntry[^"]*\.js"/, 'src="/bundle.js"')
    fs.writeFileSync(indexPath, html)
  }
  \<close>
\<close>

definition rewrite_index :: "node \<Rightarrow> result option" where
  "rewrite_index s =
     (if existsSync indexPath s then
        (case readFileSync indexPath s of
           Inl e \<Rightarrow> Some (Crashed e s)
         | Inr html \<Rightarrow>
             attempt s (writeFileSync indexPath (replace AppEntry_re src_bundle html) s))
      else Some (Done s))"

text \<open>
  \<^verbatim>\<open>fs.writeFileSync(path.join(outputDir, 'config.json'), JSON.stringify(config, null, 2))\<close>
\<close>

definition emit_config :: "node \<Rightarrow> result option" where
  "emit_config s =
     attempt s (writeFileSync (outputDir @ [''config.json'']) (JSON_stringify_2 config) s)"

text \<open>The whole script, top to bottom.\<close>

definition build_vercel :: "nat \<Rightarrow> node \<Rightarrow> result option" where
  "build_vercel fuel s =
     andThen (reset_output s)
       (\<lambda>s1. andThen (mirror_dist fuel s1)
          (\<lambda>s2. andThen (promote_bundle s2)
             (\<lambda>s3. andThen (rewrite_index s3) emit_config)))"

section \<open>Notions of the specification\<close>




text \<open>The routing manifest as section 6 of the specification gives it.\<close>

definition routing_manifest :: json where
  "routing_manifest = JObj
     [(''version'', JNum 3),
      (''routes'', JArr
         [JObj [(''src'', JStr ''^/static/(.*)$''),
                (''headers'', JObj [(''Cache-Control'', JStr ''public, max-age=31536000, immutable'')]),
                (''continue'', JBool True)],
          JObj [(''src'', JStr ''^/assets/(.*)$''),
                (''headers'', JObj [(''Cache-Control'', JStr ''public, max-age=31536000, immutable'')]),
                (''continue'', JBool True)],
          JObj [(''handle'', JStr ''filesystem'')],
          JObj [(''src'', JStr ''/(.*)''), (''dest'', JStr ''/index.html'')]])]"

text \<open>
  The text Node prints for it with \<^verbatim>\<open>JSON.stringify(config, null, 2)\<close>, line by line.
\<close>

definition pretty_manifest :: string where
  \<open>pretty_manifest = join newline
     [''{'',
      ''  "version": 3,'',
      ''  "routes": ['',
      ''    {'',
      ''      "src": "^/static/(.*)$",'',
      ''      "headers": {'',
      ''        "Cache-Control": "public, max-age=31536000, immutable"'',
      ''      },'',
      ''      "continue": true'',
      ''    },'',
      ''    {'',
      ''      "src": "^/assets/(.*)$",'',
      ''      "headers": {'',
      ''        "Cache-Control": "public, max-age=31536000, immutable"'',
      ''      },'',
      ''      "continue": true'',
      ''    },'',
      ''    {'',
      ''      "handle": "filesystem"'',
      ''    },'',
      ''    {'',
      ''      "src": "/(.*)",'',
      ''      "dest": "/index.html"'',
      ''    }'',
      ''  ]'',
      ''}'']\<close>

text \<open>
  Reading a JSON text back (\<^verbatim>\<open>JSON.parse\<close>; the script itself never parses): white
  space between tokens, objects as the list of their members in the order of the text,
  strings with the two-character escapes, integers. The fuel bounds the nesting and the
  number of members, and the length of the text is enough of it.
\<close>

definition is_ws :: "char \<Rightarrow> bool" where
  "is_ws c = (c = CHR '' '' \<or> c = CHR 0x0A \<or> c = CHR 0x0D \<or> c = CHR 0x09)"

definition skip_ws :: "string \<Rightarrow> string" where
  "skip_ws s = dropWhile is_ws s"

definition is_digit :: "char \<Rightarrow> bool" where
  "is_digit c = (48 \<le> (of_char c :: nat) \<and> (of_char c :: nat) \<le> 57)"

fun parse_digits :: "nat \<Rightarrow> string \<Rightarrow> nat \<times> string" where
  "parse_digits acc [] = (acc, [])"
| "parse_digits acc (c # cs) =
     (if is_digit c then parse_digits (10 * acc + (of_char c - 48)) cs else (acc, c # cs))"

definition unescape :: "char \<Rightarrow> char option" where
  \<open>unescape e =
     (if e = CHR 0x22 then Some (CHR 0x22)
      else if e = CHR 0x5C then Some (CHR 0x5C)
      else if e = CHR ''/'' then Some (CHR ''/'')
      else if e = CHR ''b'' then Some (CHR 0x08)
      else if e = CHR ''f'' then Some (CHR 0x0C)
      else if e = CHR ''n'' then Some (CHR 0x0A)
      else if e = CHR ''r'' then Some (CHR 0x0D)
      else if e = CHR ''t'' then Some (CHR 0x09)
      else None)\<close>

fun parse_string :: "string \<Rightarrow> (string \<times> string) option" where
  "parse_string [] = None"
| "parse_string [c] = (if c = CHR 0x22 then Some ([], []) else None)"
| "parse_string (c # e # cs) =
     (if c = CHR 0x22 then Some ([], e # cs)
      else if c = CHR 0x5C then
        (case unescape e of
           None \<Rightarrow> None
         | Some ch \<Rightarrow> map_option (\<lambda>(s, r). (ch # s, r)) (parse_string cs))
      else if (of_char c :: nat) < 32 then None
      else map_option (\<lambda>(s, r). (c # s, r)) (parse_string (e # cs)))"

fun parse_value :: "nat \<Rightarrow> string \<Rightarrow> (json \<times> string) option"
  and parse_elements :: "nat \<Rightarrow> string \<Rightarrow> (json list \<times> string) option"
  and parse_members :: "nat \<Rightarrow> string \<Rightarrow> ((string \<times> json) list \<times> string) option" where
  "parse_value 0 s = None"
| "parse_value (Suc n) s =
     (case skip_ws s of
        [] \<Rightarrow> None
      | c # cs \<Rightarrow>
          if c = CHR ''{'' then
            (case skip_ws cs of
               [] \<Rightarrow> None
             | d # ds \<Rightarrow>
                 if d = CHR ''}'' then Some (JObj [], ds)
                 else map_option (\<lambda>(ps, r). (JObj ps, r)) (parse_members n (d # ds)))
          else if c = CHR ''['' then
            (case skip_ws cs of
               [] \<Rightarrow> None
             | d # ds \<Rightarrow>
                 if d = CHR '']'' then Some (JArr [], ds)
                 else map_option (\<lambda>(vs, r). (JArr vs, r)) (parse_elements n (d # ds)))
          else if c = CHR 0x22 then map_option (\<lambda>(t, r). (JStr t, r)) (parse_string cs)
          else if prefix ''true'' (c # cs) then Some (JBool True, drop 4 (c # cs))
          else if prefix ''false'' (c # cs) then Some (JBool False, drop 5 (c # cs))
          else if prefix ''null'' (c # cs) then Some (JNull, drop 4 (c # cs))
          else if c = CHR ''-'' then
            (case cs of
               [] \<Rightarrow> None
             | d # ds \<Rightarrow>
                 if is_digit d then
                   (case parse_digits 0 cs of (k, r) \<Rightarrow> Some (JNum (- int k), r))
                 else None)
          else if is_digit c then
            (case parse_digits 0 (c # cs) of (k, r) \<Rightarrow> Some (JNum (int k), r))
          else None)"
| "parse_elements 0 s = None"
| "parse_elements (Suc n) s =
     (case parse_value n s of
        None \<Rightarrow> None
      | Some (v, r) \<Rightarrow>
          (case skip_ws r of
             [] \<Rightarrow> None
           | c # cs \<Rightarrow>
               if c = CHR '','' then map_option (\<lambda>(vs, r'). (v # vs, r')) (parse_elements n cs)
               else if c = CHR '']'' then Some ([v], cs)
               else None))"
| "parse_members 0 s = None"
| "parse_members (Suc n) s =
     (case skip_ws s of
        [] \<Rightarrow> None
      | q # qs \<Rightarrow>
          if q = CHR 0x22 then
            (case parse_string qs of
               None \<Rightarrow> None
             | Some (k, r) \<Rightarrow>
                 (case skip_ws r of
                    [] \<Rightarrow> None
                  | c # cs \<Rightarrow>
                      if c = CHR '':'' then
                        (case parse_value n cs of
                           None \<Rightarrow> None
                         | Some (v, r') \<Rightarrow>
                             (case skip_ws r' of
                                [] \<Rightarrow> None
                              | d # ds \<Rightarrow>
                                  if d = CHR '','' then
                                    map_option (\<lambda>(ps, r''). ((k, v) # ps, r'')) (parse_members n ds)
                                  else if d = CHR ''}'' then Some ([(k, v)], ds)
                                  else None))
                      else None))
          else None)"

definition JSON_parse :: "string \<Rightarrow> json option" where
  "JSON_parse s =
     (case parse_value (length s) s of
        None \<Rightarrow> None
      | Some (v, r) \<Rightarrow> if skip_ws r = [] then Some v else None)"

section \<open>Preconditions and the outcome of a run in closed form\<close>

text \<open>
  \<open>fuel_for s\<close> is the fuel \<open>copyRecursive\<close> needs for the tree at \<^verbatim>\<open>dist\<close>:
  its height. \<open>is_file\<close> and \<open>is_dir\<close> tell what a lookup found. \<open>jsFile s\<close> is
  the name the promotion step selects (the constant \<^verbatim>\<open>jsFile\<close> of the script), if it
  selects one.
\<close>

definition fuel_for :: "node \<Rightarrow> nat" where
  "fuel_for s = (case lookup s [''dist''] of None \<Rightarrow> 1 | Some t \<Rightarrow> height t)"

fun is_file :: "node option \<Rightarrow> bool" where
  "is_file (Some (File b)) = True"
| "is_file _ = False"

fun is_dir :: "node option \<Rightarrow> bool" where
  "is_dir (Some (Dir es)) = True"
| "is_dir _ = False"

definition jsFile :: "node \<Rightarrow> string option" where
  "jsFile s = (case readdirSync jsDir s of Inl e \<Rightarrow> None | Inr files \<Rightarrow> find isAppEntry files)"

text \<open>
  \<open>mirror t\<close> is the copy \<open>copyRecursive\<close> makes of the tree \<open>t\<close> at a fresh
  place (\<open>copyRecursive_mirror\<close> below): for every listed name, in listing order, the
  copy of the entry found under that name. An entry whose name is not well-formed UTF-8
  is not found under its listed name and has no copy.
\<close>

definition merge_entry ::
  "(string \<times> node) list \<Rightarrow> string \<Rightarrow> (string \<times> node) list \<Rightarrow> (string \<times> node) list" where
  "merge_entry es n ds = (case map_of es n of None \<Rightarrow> ds | Some c \<Rightarrow> AList.update n c ds)"

fun mirror :: "node \<Rightarrow> node" where
  "mirror (File b) = File b"
| "mirror (Dir es) =
     Dir (fold (merge_entry (map (\<lambda>e. (fst e, mirror (snd e))) es))
            (map (\<lambda>e. utf8_text (fst e)) es) [])"

text \<open>
  A tree is its own copy when in each of its directories the names are distinct and
  well-formed UTF-8 (\<open>mirror_wellnamed\<close> below).
\<close>

fun wellnamed :: "node \<Rightarrow> bool" where
  "wellnamed (File b) = True"
| "wellnamed (Dir es) =
     (distinct (map fst es) \<and> (\<forall>e \<in> set es. utf8_text (fst e) = fst e \<and> wellnamed (snd e)))"

fun entries :: "node \<Rightarrow> (string \<times> node) list" where
  "entries (File b) = []"
| "entries (Dir es) = es"

text \<open>
  The rest of this section serves the proofs only. \<open>put p t s\<close> is the tree \<open>s\<close>
  with \<open>t\<close> at path \<open>p\<close>; \<open>outstate es vs out\<close> is the working directory with
  entries \<open>es\<close> whose \<^verbatim>\<open>.vercel\<close> holds \<open>vs\<close> followed by \<^verbatim>\<open>output\<close> with
  the tree \<open>out\<close>. \<open>packaged es\<close> is the tree a run leaves when nothing throws, and
  \<open>clean es\<close> says that nothing throws; \<open>build_vercel_Done_iff\<close> below proves both
  of the script.
\<close>

fun put :: "path \<Rightarrow> node \<Rightarrow> node \<Rightarrow> node" where
  "put [] t s = t"
| "put (x # xs) t (File b) = File b"
| "put (x # xs) t (Dir es) =
     (if xs = [] then Dir (AList.update x t es)
      else (case map_of es x of
              None \<Rightarrow> Dir es
            | Some c \<Rightarrow> Dir (AList.update x (put xs t c) es)))"

definition outstate :: "(string \<times> node) list \<Rightarrow> (string \<times> node) list \<Rightarrow> node \<Rightarrow> node" where
  "outstate es vs out = Dir (AList.update ''.vercel'' (Dir (vs @ [(''output'', out)])) es)"

definition kept_vercel :: "(string \<times> node) list \<Rightarrow> (string \<times> node) list" where
  "kept_vercel es =
     (case map_of es ''.vercel'' of Some (Dir vs) \<Rightarrow> AList.delete ''output'' vs | _ \<Rightarrow> [])"

definition fresh_output :: node where
  "fresh_output = Dir [(''static'', Dir []), (''config'', Dir [])]"

definition staged :: "(string \<times> node) list \<Rightarrow> (string \<times> node) list \<Rightarrow> (string \<times> node) list \<Rightarrow> node" where
  "staged es vs ss = outstate es vs (Dir [(''static'', Dir ss), (''config'', Dir [])])"

definition finished :: "(string \<times> node) list \<Rightarrow> (string \<times> node) list \<Rightarrow> (string \<times> node) list \<Rightarrow> node" where
  "finished es vs ss =
     outstate es vs
       (Dir [(''static'', Dir ss), (''config'', Dir []),
             (''config.json'', File (JSON_stringify_2 config))])"

definition mirrored :: "(string \<times> node) list \<Rightarrow> (string \<times> node) list" where
  "mirrored es = (case map_of es ''dist'' of None \<Rightarrow> [] | Some t \<Rightarrow> entries (mirror t))"

definition promoted :: "(string \<times> node) list \<Rightarrow> (string \<times> node) list" where
  "promoted es =
     (case jsFile (Dir es) of
        None \<Rightarrow> mirrored es
      | Some f \<Rightarrow>
          (case lookup (Dir es) (jsDir @ [f]) of
             Some (File b) \<Rightarrow> AList.update ''bundle.js'' (File b) (mirrored es)
           | _ \<Rightarrow> mirrored es))"

definition rewritten :: "(string \<times> node) list \<Rightarrow> (string \<times> node) list" where
  "rewritten es =
     (case map_of (promoted es) ''index.html'' of
        Some (File html) \<Rightarrow>
          AList.update ''index.html''
            (File (replace AppEntry_re src_bundle (utf8_text html))) (promoted es)
      | _ \<Rightarrow> promoted es)"

definition packaged :: "(string \<times> node) list \<Rightarrow> node" where
  "packaged es = finished es (kept_vercel es) (rewritten es)"

definition clean :: "(string \<times> node) list \<Rightarrow> bool" where
  "clean es \<longleftrightarrow>
     \<not> is_file (map_of es ''.vercel'') \<and> \<not> is_file (map_of es ''dist'') \<and>
     \<not> is_file (lookup (Dir es) jsDir) \<and>
     (case jsFile (Dir es) of
        None \<Rightarrow> True
      | Some f \<Rightarrow> is_file (lookup (Dir es) (jsDir @ [f])) \<and>
          \<not> is_dir (map_of (mirrored es) ''bundle.js'')) \<and>
     \<not> is_dir (map_of (promoted es) ''index.html'')"

section \<open>Example trees\<close>

text \<open>
  A project with a built site (an entry page, a bundle of its own at the root, an asset,
  the Expo bundle below \<^verbatim>\<open>_expo/static/js/web\<close> after another file) and the output
  of an earlier deployment.
\<close>

definition site_html :: string where
  \<open>site_html = ''<script src="/_expo/static/js/web/AppEntry-abc123.js">''\<close>

definition web_entries :: "(string \<times> node) list" where
  "web_entries = [(''README.md'', File ''notes''), (''AppEntry-abc123.js'', File ''console.log(1)'')]"

definition site_entries :: "(string \<times> node) list" where
  "site_entries =
     [(''dist'', Dir
        [(''index.html'', File site_html),
         (''bundle.js'', File ''old bundle''),
         (''assets'', Dir [(''logo.png'', File ''PNG'')]),
         (''_expo'', Dir [(''static'', Dir [(''js'', Dir [(''web'', Dir web_entries)])])])]),
      (''.vercel'', Dir
        [(''output'', Dir [(''static'', Dir [(''stale.js'', File ''stale'')]), (''old.json'', File ''{}'')]),
         (''project.json'', File ''{}'')])]"

definition site :: node where
  "site = Dir site_entries"



text \<open>
  \<open>with_output es static rest\<close> is a working directory with entries \<open>es\<close> and,
  after them, \<^verbatim>\<open>.vercel/output\<close> holding the static directory with entries
  \<open>static\<close>, the empty \<^verbatim>\<open>config\<close> directory and the entries \<open>rest\<close>.
  \<open>expo web\<close> is the entry \<^verbatim>\<open>_expo\<close> of a site with \<open>web\<close> at
  \<^verbatim>\<open>_expo/static/js/web\<close>.
\<close>

definition with_output ::
  "(string \<times> node) list \<Rightarrow> (string \<times> node) list \<Rightarrow> (string \<times> node) list \<Rightarrow> node" where
  "with_output es static rest =
     Dir (es @ [(''.vercel'', Dir [(''output'', Dir ([(''static'', Dir static), (''config'', Dir [])] @ rest))])])"

definition manifest_file :: "(string \<times> node) list" where
  "manifest_file = [(''config.json'', File (JSON_stringify_2 config))]"

definition expo :: "node \<Rightarrow> string \<times> node" where
  "expo web = (''_expo'', Dir [(''static'', Dir [(''js'', Dir [(''web'', web)])])])"

text \<open>The scenario of section 8 of the specification, and the tree the script leaves.\<close>

definition scenario_html :: string where
  \<open>scenario_html = ''<script src="/x/AppEntry-1.js"></script>''\<close>

definition scenario_entries :: "(string \<times> node) list" where
  "scenario_entries =
     [(''dist'', Dir
        [(''index.html'', File scenario_html),
         (''x'', Dir [(''AppEntry-1.js'', File ''console.log(1)'')])])]"

definition scenario_out :: node where
  \<open>scenario_out = with_output scenario_entries
     [(''index.html'', File ''<script src="/bundle.js"></script>''),
      (''x'', Dir [(''AppEntry-1.js'', File ''console.log(1)'')])]
     manifest_file\<close>

text \<open>
  A site with a \<^verbatim>\<open>bundle.js\<close> of its own and the Expo bundle, and a site with a
  file whose name is the single byte \<^verbatim>\<open>FF\<close>, which is not UTF-8.
\<close>

definition two_bundles_entries :: "(string \<times> node) list" where
  "two_bundles_entries =
     [(''dist'', Dir
        [(''bundle.js'', File ''console.log(0)''),
         expo (Dir [(''AppEntry-1.js'', File ''console.log(1)'')])])]"

definition two_bundles_out :: node where
  "two_bundles_out = with_output two_bundles_entries
     [(''bundle.js'', File ''console.log(1)''),
      expo (Dir [(''AppEntry-1.js'', File ''console.log(1)'')])]
     manifest_file"

definition odd_name_entries :: "(string \<times> node) list" where
  "odd_name_entries = [(''dist'', Dir [([CHR 0xFF], File ''data'')])]"

definition odd_name_out :: node where
  "odd_name_out = with_output odd_name_entries [] manifest_file"

text \<open>
  A site whose root \<^verbatim>\<open>bundle.js\<close> is a directory, a project whose
  \<^verbatim>\<open>.vercel\<close> is a regular file, and a site whose Expo bundle has the byte
  \<^verbatim>\<open>FF\<close> in its name.
\<close>

definition bundle_dir_entries :: "(string \<times> node) list" where
  "bundle_dir_entries =
     [(''dist'', Dir
        [(''bundle.js'', Dir []),
         expo (Dir [(''AppEntry-1.js'', File ''console.log(1)'')])])]"

definition bundle_dir_stopped :: node where
  "bundle_dir_stopped = with_output bundle_dir_entries
     [(''bundle.js'', Dir []),
      expo (Dir [(''AppEntry-1.js'', File ''console.log(1)'')])]
     []"

definition vercel_file :: node where
  "vercel_file = Dir
     [(''.vercel'', File ''token''),
      (''dist'', Dir [expo (Dir [(''AppEntry-1.js'', File ''console.log(1)'')])])]"

definition odd_bundle_entries :: "(string \<times> node) list" where
  "odd_bundle_entries =
     [(''dist'', Dir [expo (Dir [(''AppEntry-'' @ [CHR 0xFF] @ ''.js'', File ''console.log(1)'')])])]"

definition odd_bundle_stopped :: node where
  "odd_bundle_stopped = with_output odd_bundle_entries [expo (Dir [])] []"

text \<open>A site with a \<^verbatim>\<open>bundle.js\<close> of its own and no Expo directory.\<close>

definition own_bundle_entries :: "(string \<times> node) list" where
  "own_bundle_entries = [(''dist'', Dir [(''bundle.js'', File ''console.log(0)'')])]"

definition own_bundle_out :: node where
  "own_bundle_out = with_output own_bundle_entries [(''bundle.js'', File ''console.log(0)'')] manifest_file"

text \<open>
  Projects without the Expo bundle on which the script throws: \<^verbatim>\<open>.vercel\<close> is a
  regular file; \<^verbatim>\<open>dist\<close> is a regular file; \<^verbatim>\<open>dist/index.html\<close> is a
  directory; \<^verbatim>\<open>dist/_expo/static/js/web\<close> is a regular file.
\<close>

definition token_only :: node where
  "token_only = Dir [(''.vercel'', File ''token'')]"

definition dist_file_entries :: "(string \<times> node) list" where
  "dist_file_entries = [(''dist'', File ''archive'')]"

definition index_dir_entries :: "(string \<times> node) list" where
  "index_dir_entries = [(''dist'', Dir [(''index.html'', Dir [])])]"

definition web_file_entries :: "(string \<times> node) list" where
  "web_file_entries = [(''dist'', Dir [expo (File ''notes'')])]"

text \<open>
  Projects without the Expo bundle on which the script completes: a site with a bundle of
  its own whose Expo directory holds other files only, beside the output of an earlier
  deployment; and a project without \<^verbatim>\<open>dist\<close>, with such an output.
\<close>

definition plain_site_entries :: "(string \<times> node) list" where
  "plain_site_entries =
     [(''dist'', Dir
        [(''index.html'', File ''<p>hello</p>''),
         (''bundle.js'', File ''console.log(0)''),
         expo (Dir [(''README.md'', File ''notes''), (''AppEntry.css'', File ''p {}'')])]),
      (''.vercel'', Dir [(''output'', Dir [(''static'', Dir [(''bundle.js'', File ''stale'')])])])]"

definition no_dist_entries :: "(string \<times> node) list" where
  "no_dist_entries =
     [(''README.md'', File ''notes''),
      (''.vercel'', Dir [(''output'', Dir [(''static'', Dir [(''bundle.js'', File ''stale'')])])])]"

section \<open>Paths and lookups\<close>

lemma lookup_append:
  "lookup s (p @ q) = (case lookup s p of None \<Rightarrow> None | Some t \<Rightarrow> lookup t q)"
  by (induction s p rule: lookup.induct) (auto split: option.splits)

lemma lookup_single: "lookup (Dir es) [x] = map_of es x"
  by (simp split: option.splits)


lemma update_absent: "map_of es k = None \<Longrightarrow> AList.update k v es = es @ [(k, v)]"
  by (induction es) (auto split: if_splits)

lemma update_append_last:
  "map_of vs k = None \<Longrightarrow> AList.update k v (vs @ [(k, w)]) = vs @ [(k, v)]"
  by (induction vs) (auto split: if_splits)

lemma delete_absent: "map_of vs k = None \<Longrightarrow> AList.delete k vs = vs"
  by (induction vs) (auto split: if_splits)

lemma delete_append_last: "map_of vs k = None \<Longrightarrow> AList.delete k (vs @ [(k, v)]) = vs"
  by (induction vs) (auto split: if_splits)

lemma is_file_iff: "is_file n \<longleftrightarrow> (\<exists>b. n = Some (File b))"
  by (cases n rule: is_file.cases) auto

lemma is_dir_iff: "is_dir n \<longleftrightarrow> (\<exists>d. n = Some (Dir d))"
  by (cases n rule: is_dir.cases) auto

lemma height_child: "(x, c) \<in> set es \<Longrightarrow> height c < height (Dir es)"
proof -
  assume "(x, c) \<in> set es"
  then have "height c \<in> set (0 # map (\<lambda>e. height (snd e)) es)"
    by force
  then have "height c \<le> Max (set (0 # map (\<lambda>e. height (snd e)) es))"
    by (intro Max_ge) auto
  also have "\<dots> = fold max (map (\<lambda>e. height (snd e)) es) 0"
    by (rule Max.set_eq_fold)
  finally show ?thesis
    by simp
qed

lemma height_pos: "height t = 0 \<longleftrightarrow> False"
  by (cases t) auto

section \<open>What a call leaves alone\<close>

text \<open>
  A call that writes at \<open>p\<close> changes nothing at a path that neither lies below \<open>p\<close>
  nor above it.
\<close>

lemma alter_frame:
  "alter f p s = Inr s' \<Longrightarrow> q \<parallel> p \<Longrightarrow> lookup s' q = lookup s q"
proof (induction f p s arbitrary: s' q rule: alter.induct)
  case (1 f n)
  then show ?case by simp
next
  case (2 f x xs b)
  then show ?case by simp
next
  case (3 f x xs es)
  from \<open>q \<parallel> x # xs\<close> obtain y ys where q: "q = y # ys"
    by (cases q) auto
  show ?case
  proof (cases "y = x")
    case False
    with 3(2) q show ?thesis
      by (auto simp: update_conv' delete_conv' split: if_splits sum.splits option.splits)
  next
    case True
    with 3(3) q have par: "ys \<parallel> xs"
      by (auto dest: parallel_cancel)
    then have ne: "xs \<noteq> []"
      by auto
    from 3(2) ne obtain c c' where c: "map_of es x = Some c" "alter f xs c = Inr c'"
      "s' = Dir (AList.update x c' es)"
      by (auto split: option.splits sum.splits)
    from 3(1)[OF ne c(1) c(2) par] show ?thesis
      using q True c by (simp add: update_conv')
  qed
qed

lemma mkdirSync_frame:
  "mkdirSync p s = Inr s' \<Longrightarrow> q \<parallel> p \<Longrightarrow> lookup s' q = lookup s q"
proof (induction p s arbitrary: s' q rule: mkdirSync.induct)
  case (4 x xs es)
  from \<open>q \<parallel> x # xs\<close> obtain y ys where q: "q = y # ys"
    by (cases q) auto
  show ?case
  proof (cases "y = x")
    case False
    with 4(2) q show ?thesis
      by (auto simp: update_conv' split: sum.splits)
  next
    case True
    with 4(3) q have par: "ys \<parallel> xs"
      by (auto dest: parallel_cancel)
    let ?c = "case map_of es x of None \<Rightarrow> Dir [] | Some c \<Rightarrow> c"
    from 4(2) obtain c' where c: "mkdirSync xs ?c = Inr c'" "s' = Dir (AList.update x c' es)"
      by (auto split: sum.splits)
    from par obtain z zs where ys: "ys = z # zs"
      by (cases ys) auto
    from 4(1)[OF c(1) par] show ?thesis
      using q True c ys by (auto simp: update_conv' split: option.splits)
  qed
qed auto

lemma writeFileSync_frame:
  "writeFileSync p d s = Inr s' \<Longrightarrow> q \<parallel> p \<Longrightarrow> lookup s' q = lookup s q"
  unfolding writeFileSync_def by (rule alter_frame)

lemma rmSync_frame:
  "rmSync p s = Inr s' \<Longrightarrow> q \<parallel> p \<Longrightarrow> lookup s' q = lookup s q"
  unfolding rmSync_def by (rule alter_frame)

lemma copyFileSync_frame:
  assumes "q \<parallel> p"
  shows "lookup (state_of (copyFileSync src p s)) q = lookup s q"
proof (cases "lookup s src")
  case None
  then show ?thesis by (simp add: copyFileSync_def)
next
  case (Some t)
  show ?thesis
  proof (cases t)
    case (File b)
    with Some assms show ?thesis
      by (auto simp: copyFileSync_def split: sum.splits dest: writeFileSync_frame)
  next
    case (Dir es)
    show ?thesis
    proof (cases "writeFileSync p [] s")
      case (Inl e)
      with Some Dir show ?thesis by (simp add: copyFileSync_def)
    next
      case (Inr s1)
      from writeFileSync_frame[OF Inr assms] have l1: "lookup s1 q = lookup s q" .
      show ?thesis
      proof (cases "rmSync p s1")
        case (Inl e)
        with Some Dir Inr l1 show ?thesis by (simp add: copyFileSync_def)
      next
        case r: (Inr s2)
        from rmSync_frame[OF r assms] l1 Some Dir Inr r show ?thesis
          by (simp add: copyFileSync_def)
      qed
    qed
  qed
qed

lemma attempt_frame:
  assumes "attempt s r = Some res" "\<And>s'. r = Inr s' \<Longrightarrow> lookup s' q = lookup s q"
  shows "lookup (state_of res) q = lookup s q"
  using assms by (auto simp: attempt_def split: sum.splits)

lemma andThen_Some:
  "andThen r k = Some res \<Longrightarrow>
     (\<exists>e s. r = Some (Crashed e s) \<and> res = Crashed e s) \<or> (\<exists>s. r = Some (Done s) \<and> k s = Some res)"
  by (auto simp: andThen_def split: option.splits result.splits)

lemma andThen_Some_Done [simp]: "andThen (Some (Done s)) k = k s"
  by (simp add: andThen_def)

lemma andThen_Some_Crashed [simp]: "andThen (Some (Crashed e s)) k = Some (Crashed e s)"
  by (simp add: andThen_def)

lemma copy_frame:
  "(copyRecursive n src dest s = Some res \<longrightarrow> q \<parallel> dest \<longrightarrow> lookup (state_of res) q = lookup s q)"
  "(copyItems n src dest items s = Some res \<longrightarrow> q \<parallel> dest \<longrightarrow> lookup (state_of res) q = lookup s q)"
proof (induction n src dest s and n src dest items s arbitrary: res and res rule: copyRecursive_copyItems.induct)
  case (1 src dest s)
  then show ?case by simp
next
  case (2 n src dest s)
  show ?case
  proof (intro impI)
    assume run: "copyRecursive (Suc n) src dest s = Some res" and par: "q \<parallel> dest"
    show "lookup (state_of res) q = lookup s q"
    proof (cases "existsSync src s")
      case False
      with run show ?thesis by auto
    next
      case True
      show ?thesis
      proof (cases "statSync_isDirectory src s")
        case (Inl e)
        with run True show ?thesis by auto
      next
        case (Inr b)
        show ?thesis
        proof (cases b)
          case False
          with run True Inr have "res = copyFileSync src dest s" by simp
          with copyFileSync_frame[OF par] show ?thesis by simp
        next
          case isdir: True
          let ?pre = "if \<not> existsSync dest s then attempt s (mkdirSync dest s) else Some (Done s)"
          let ?k = "\<lambda>s1. case readdirSync src s1 of Inl e \<Rightarrow> Some (Crashed e s1)
                      | Inr items \<Rightarrow> copyItems n src dest items s1"
          from run True Inr isdir have r: "andThen ?pre ?k = Some res" by simp
          have pre: "lookup (state_of r1) q = lookup s q" if "?pre = Some r1" for r1
          proof (cases "existsSync dest s")
            case True
            with that show ?thesis by auto
          next
            case False
            with that have "attempt s (mkdirSync dest s) = Some r1" by simp
            then show ?thesis
              by (rule attempt_frame) (rule mkdirSync_frame[OF _ par])
          qed
          from andThen_Some[OF r] show ?thesis
          proof
            assume "\<exists>e s'. ?pre = Some (Crashed e s') \<and> res = Crashed e s'"
            then show ?thesis using pre by auto
          next
            assume "\<exists>s1. ?pre = Some (Done s1) \<and> ?k s1 = Some res"
            then obtain s1 where s1: "?pre = Some (Done s1)" "?k s1 = Some res" by blast
            from pre[OF s1(1)] have eq1: "lookup s1 q = lookup s q" by simp
            show ?thesis
            proof (cases "readdirSync src s1")
              case (Inl e)
              with s1(2) eq1 show ?thesis by auto
            next
              case (Inr items)
              with s1(2) have "copyItems n src dest items s1 = Some res" by simp
              moreover from True have "\<not> \<not> existsSync src s" by simp
              moreover from isdir have "b = True" by simp
              moreover note 2[of b s1 items res] \<open>statSync_isDirectory src s = Inr b\<close> Inr par eq1
              ultimately show ?thesis by simp
            qed
          qed
        qed
      qed
    qed
  qed
next
  case (3 n src dest s)
  then show ?case by auto
next
  case (4 n src dest item items s)
  show ?case
  proof (intro impI)
    assume run: "copyItems n src dest (item # items) s = Some res" and par: "q \<parallel> dest"
    then have r: "andThen (copyRecursive n (src @ [item]) (dest @ [item]) s) (copyItems n src dest items) = Some res"
      by simp
    from par have par': "q \<parallel> dest @ [item]"
      using parallel_append[of q dest "[]" "[item]"] by simp
    from andThen_Some[OF r] show "lookup (state_of res) q = lookup s q"
    proof
      assume "\<exists>e s'. copyRecursive n (src @ [item]) (dest @ [item]) s = Some (Crashed e s') \<and> res = Crashed e s'"
      then obtain e s' where "copyRecursive n (src @ [item]) (dest @ [item]) s = Some (Crashed e s')"
        "res = Crashed e s'" by blast
      with 4(1)[of "Crashed e s'"] par' show ?thesis by simp
    next
      assume "\<exists>s1. copyRecursive n (src @ [item]) (dest @ [item]) s = Some (Done s1) \<and> copyItems n src dest items s1 = Some res"
      then obtain s1 where s1: "copyRecursive n (src @ [item]) (dest @ [item]) s = Some (Done s1)"
        "copyItems n src dest items s1 = Some res" by blast
      from 4(1)[of "Done s1"] s1(1) par' have "lookup s1 q = lookup s q" by simp
      moreover from 4(2)[of s1 res] s1(2) par have "lookup (state_of res) q = lookup s1 q" by simp
      ultimately show ?thesis by simp
    qed
  qed
qed

section \<open>copyRecursive returns\<close>

lemma andThen_returns:
  "r \<noteq> None \<Longrightarrow> (\<And>s. r = Some (Done s) \<Longrightarrow> k s \<noteq> None) \<Longrightarrow> andThen r k \<noteq> None"
  by (auto simp: andThen_def split: option.splits result.splits)

lemma attempt_returns: "attempt s r \<noteq> None"
  by (simp add: attempt_def split: sum.splits)

lemma copyItems_returns:
  assumes rec: "\<And>s src dest. (case lookup s src of None \<Rightarrow> 1 | Some t \<Rightarrow> height t) \<le> n \<Longrightarrow>
                   src \<parallel> dest \<Longrightarrow> copyRecursive n src dest s \<noteq> None"
    and low: "\<And>c. c \<in> snd ` set es \<Longrightarrow> height c \<le> n"
    and par: "src \<parallel> dest"
  shows "lookup s src = Some (Dir es) \<Longrightarrow> items = [] \<or> 0 < n \<Longrightarrow>
           copyItems n src dest items s \<noteq> None"
proof (induction items arbitrary: s)
  case Nil
  then show ?case by simp
next
  case (Cons item items)
  from Cons.prems have pos: "0 < n" by simp
  have "(case lookup s (src @ [item]) of None \<Rightarrow> 1 | Some t \<Rightarrow> height t) \<le> n"
  proof (cases "map_of es item")
    case None
    with Cons.prems(1) pos show ?thesis by (simp add: lookup_append)
  next
    case (Some c)
    then have "c \<in> snd ` set es" by (force dest: map_of_SomeD)
    with low Some Cons.prems(1) show ?thesis by (simp add: lookup_append)
  qed
  moreover from par have "src @ [item] \<parallel> dest @ [item]" by (rule parallel_append)
  ultimately have r1: "copyRecursive n (src @ [item]) (dest @ [item]) s \<noteq> None"
    by (rule rec)
  from par have par': "src \<parallel> dest @ [item]"
    using parallel_append[of src dest "[]" "[item]"] by simp
  show ?case
    unfolding copyItems.simps
  proof (rule andThen_returns[OF r1])
    fix s1 assume "copyRecursive n (src @ [item]) (dest @ [item]) s = Some (Done s1)"
    with copy_frame(1)[of n "src @ [item]" "dest @ [item]" s "Done s1" src] par'
    have "lookup s1 src = lookup s src" by simp
    with Cons.prems(1) pos Cons.IH[of s1] show "copyItems n src dest items s1 \<noteq> None" by simp
  qed
qed

lemma copyRecursive_returns:
  "(case lookup s src of None \<Rightarrow> 1 | Some t \<Rightarrow> height t) \<le> n \<Longrightarrow> src \<parallel> dest \<Longrightarrow>
     copyRecursive n src dest s \<noteq> None"
proof (induction n arbitrary: s src dest)
  case 0
  then show ?case by (auto split: option.splits simp: height_pos)
next
  case (Suc n)
  show ?case
  proof (cases "lookup s src")
    case None
    then show ?thesis by (simp add: existsSync_def)
  next
    case (Some t)
    show ?thesis
    proof (cases t)
      case (File b)
      with Some show ?thesis
        by (simp add: existsSync_def statSync_isDirectory_def)
    next
      case (Dir es)
      let ?pre = "if \<not> existsSync dest s then attempt s (mkdirSync dest s) else Some (Done s)"
      have pre: "?pre \<noteq> None" by (auto simp: attempt_def split: sum.splits)
      have "andThen ?pre (\<lambda>s1. case readdirSync src s1 of Inl e \<Rightarrow> Some (Crashed e s1)
                      | Inr items \<Rightarrow> copyItems n src dest items s1) \<noteq> None"
      proof (rule andThen_returns[OF pre])
        fix s1 assume s1: "?pre = Some (Done s1)"
        have "lookup s1 src = lookup s src"
        proof (cases "existsSync dest s")
          case True
          with s1 show ?thesis by simp
        next
          case False
          with s1 have "mkdirSync dest s = Inr s1"
            by (auto simp: attempt_def split: sum.splits)
          from mkdirSync_frame[OF this \<open>src \<parallel> dest\<close>] show ?thesis .
        qed
        with Some Dir have l1: "lookup s1 src = Some (Dir es)" by simp
        have low: "height c \<le> n" if "c \<in> snd ` set es" for c
        proof -
          from that have "height c < height (Dir es)" by (auto dest: height_child)
          with Suc.prems(1) Some Dir show ?thesis by simp
        qed
        have "es = [] \<or> 0 < n"
        proof (cases es)
          case Nil
          then show ?thesis by simp
        next
          case (Cons e es')
          then have "snd e \<in> snd ` set es" by simp
          from low[OF this] have "height (snd e) \<le> n" .
          then show ?thesis by (cases n) (simp_all add: height_pos)
        qed
        then have "map (\<lambda>e. utf8_text (fst e)) es = [] \<or> 0 < n" by simp
        with Suc.IH low \<open>src \<parallel> dest\<close> l1
        have "copyItems n src dest (map (\<lambda>e. utf8_text (fst e)) es) s1 \<noteq> None"
          by (intro copyItems_returns[where es = es]) auto
        with l1 show "(case readdirSync src s1 of Inl e \<Rightarrow> Some (Crashed e s1)
                      | Inr items \<Rightarrow> copyItems n src dest items s1) \<noteq> None"
          by (simp add: readdirSync_def)
      qed
      with Some Dir show ?thesis
        by (simp add: existsSync_def statSync_isDirectory_def)
    qed
  qed
qed

section \<open>copyRecursive copies the tree\<close>

lemma put_frame: "q \<parallel> p \<Longrightarrow> lookup (put p t s) q = lookup s q"
proof (induction p t s arbitrary: q rule: put.induct)
  case (3 x xs t es)
  from \<open>q \<parallel> x # xs\<close> obtain y ys where q: "q = y # ys"
    by (cases q) auto
  show ?case
  proof (cases "y = x")
    case False
    with q show ?thesis
      by (auto simp: update_conv' split: option.splits)
  next
    case True
    with 3(2) q have par: "ys \<parallel> xs"
      by (auto dest: parallel_cancel)
    then have ne: "xs \<noteq> []" by auto
    show ?thesis
    proof (cases "map_of es x")
      case None
      with ne show ?thesis by simp
    next
      case (Some c)
      with 3(1)[OF ne Some par] ne q True show ?thesis
        by (simp add: update_conv')
    qed
  qed
qed auto

lemma lookup_put:
  "lookup s dp = Some (Dir ds) \<Longrightarrow> lookup (put (dp @ [x]) t s) (dp @ [x]) = Some t"
proof (induction dp arbitrary: s)
  case Nil
  then show ?case by (simp add: update_conv')
next
  case (Cons a dp)
  then obtain es c where s: "s = Dir es" "map_of es a = Some c" "lookup c dp = Some (Dir ds)"
    by (cases s) (auto split: option.splits)
  with Cons.IH[of c] show ?case
    by (simp add: update_conv')
qed

lemma put_put:
  "put (p @ [y]) c (put p (Dir es1) s) = put p (Dir (AList.update y c es1)) s"
proof (induction p "Dir es1" s rule: put.induct)
  case (3 x xs es)
  then show ?case
    by (auto simp: update_conv' update_last split: option.splits)
qed auto

lemma put_triv: "lookup s p = Some t \<Longrightarrow> put p t s = s"
proof (induction p t s rule: put.induct)
  case (3 x xs t es)
  then show ?case
    by (auto simp: update_triv split: option.splits)
qed auto

lemma mkdirSync_put:
  "lookup s dp = Some (Dir ds) \<Longrightarrow> map_of ds x = None \<Longrightarrow>
     mkdirSync (dp @ [x]) s = Inr (put (dp @ [x]) (Dir []) s)"
proof (induction dp arbitrary: s)
  case Nil
  then show ?case by simp
next
  case (Cons a dp)
  then obtain es c where s: "s = Dir es" "map_of es a = Some c" "lookup c dp = Some (Dir ds)"
    by (cases s) (auto split: option.splits)
  with Cons.IH[of c] Cons.prems show ?case
    by simp
qed

lemma writeFileSync_put:
  "lookup s dp = Some (Dir ds) \<Longrightarrow> (\<forall>es. map_of ds x \<noteq> Some (Dir es)) \<Longrightarrow>
     writeFileSync (dp @ [x]) b s = Inr (put (dp @ [x]) (File b) s)"
proof (induction dp arbitrary: s)
  case Nil
  then show ?case by (auto simp: writeFileSync_def split: option.splits node.splits)
next
  case (Cons a dp)
  then obtain es c where s: "s = Dir es" "map_of es a = Some c" "lookup c dp = Some (Dir ds)"
    by (cases s) (auto split: option.splits)
  with Cons.IH[of c] Cons.prems show ?case
    by (simp add: writeFileSync_def)
qed


lemma map_of_mirror_children:
  "map_of (map (\<lambda>e. (fst e, mirror (snd e))) es) n = map_option mirror (map_of es n)"
  by (induction es) auto

lemma merge_entry_mirror:
  "merge_entry (map (\<lambda>e. (fst e, mirror (snd e))) es) n ds =
     (case map_of es n of None \<Rightarrow> ds | Some c \<Rightarrow> AList.update n (mirror c) ds)"
  by (simp add: merge_entry_def map_of_mirror_children split: option.splits)

lemma map_of_fold_merge:
  "map_of (fold (merge_entry ms) items ds) k =
     (if k \<in> set items \<and> map_of ms k \<noteq> None then map_of ms k else map_of ds k)"
  by (induction items arbitrary: ds) (auto simp: merge_entry_def update_conv' split: option.splits)

lemma fold_merge_again:
  assumes "\<And>n. n \<in> set items \<Longrightarrow> map_of ms n \<noteq> None \<Longrightarrow> map_of ds n = map_of ms n"
  shows "fold (merge_entry ms) items ds = ds"
  using assms
proof (induction items)
  case Nil
  then show ?case by simp
next
  case (Cons n items)
  have "merge_entry ms n ds = ds"
  proof (cases "map_of ms n")
    case None
    then show ?thesis by (simp add: merge_entry_def)
  next
    case (Some c)
    with Cons.prems[of n] have "map_of ds n = Some c" by simp
    with Some show ?thesis by (simp add: merge_entry_def update_triv)
  qed
  with Cons show ?case by simp
qed

text \<open>
  The loop over the listed names of a directory, given the copy of each entry. The
  directory at the destination holds \<open>cur\<close>, entries copied earlier.
\<close>

lemma copyItems_mirror:
  assumes src: "lookup s src = Some (Dir es)"
    and dp: "lookup s dp = Some (Dir ds)" and par: "src \<parallel> dp @ [x]"
    and rec: "\<And>y c s' es1. map_of es y = Some c \<Longrightarrow> lookup s' (src @ [y]) = Some c \<Longrightarrow>
                lookup s' (dp @ [x]) = Some (Dir es1) \<Longrightarrow>
                map_of es1 y = None \<or> map_of es1 y = Some (mirror c) \<Longrightarrow>
                copyRecursive n (src @ [y]) (dp @ [x] @ [y]) s' = Some (Done (put (dp @ [x] @ [y]) (mirror c) s'))"
  shows "items = [] \<or> 0 < n \<Longrightarrow>
     (\<And>k v. map_of cur k = Some v \<Longrightarrow> map_of es k \<noteq> None \<and> map_option mirror (map_of es k) = Some v) \<Longrightarrow>
     copyItems n src (dp @ [x]) items (put (dp @ [x]) (Dir cur) s)
       = Some (Done (put (dp @ [x])
            (Dir (fold (merge_entry (map (\<lambda>e. (fst e, mirror (snd e))) es)) items cur)) s))"
proof (induction items arbitrary: cur)
  case Nil
  then show ?case by simp
next
  case (Cons y items)
  let ?ms = "map (\<lambda>e. (fst e, mirror (snd e))) es"
  let ?cur = "put (dp @ [x]) (Dir cur) s"
  from Cons.prems(1) have pos: "0 < n" by simp
  from par have "lookup ?cur src = lookup s src" by (rule put_frame)
  with src have l0: "lookup ?cur src = Some (Dir es)" by simp
  from dp have l2: "lookup ?cur (dp @ [x]) = Some (Dir cur)" by (rule lookup_put)
  have step: "copyRecursive n (src @ [y]) ((dp @ [x]) @ [y]) ?cur
      = Some (Done (put (dp @ [x]) (Dir (merge_entry ?ms y cur)) s))"
  proof (cases "map_of es y")
    case None
    with l0 have "lookup ?cur (src @ [y]) = None" by (simp add: lookup_append)
    with pos None show ?thesis
      by (cases n) (simp_all add: existsSync_def merge_entry_mirror)
  next
    case (Some c)
    with l0 have l1: "lookup ?cur (src @ [y]) = Some c" by (simp add: lookup_append)
    have l3: "map_of cur y = None \<or> map_of cur y = Some (mirror c)"
    proof (cases "map_of cur y")
      case None
      then show ?thesis by simp
    next
      case v: (Some v)
      from Cons.prems(2)[OF v] Some v show ?thesis by simp
    qed
    from rec[OF Some l1 l2 l3]
    have "copyRecursive n (src @ [y]) (dp @ [x] @ [y]) ?cur
            = Some (Done (put (dp @ [x] @ [y]) (mirror c) ?cur))" .
    also have "put (dp @ [x] @ [y]) (mirror c) ?cur = put (dp @ [x]) (Dir (AList.update y (mirror c) cur)) s"
      using put_put[of "dp @ [x]" y "mirror c" cur s] by simp
    finally show ?thesis using Some by (simp add: merge_entry_mirror)
  qed
  have inv: "map_of es k \<noteq> None \<and> map_option mirror (map_of es k) = Some v"
    if "map_of (merge_entry ?ms y cur) k = Some v" for k v
  proof (cases "map_of es y")
    case None
    with that Cons.prems(2)[of k v] show ?thesis by (simp add: merge_entry_mirror)
  next
    case (Some c)
    show ?thesis
    proof (cases "k = y")
      case True
      with that Some show ?thesis by (simp add: merge_entry_mirror update_conv')
    next
      case False
      with that Some Cons.prems(2)[of k v] show ?thesis
        by (simp add: merge_entry_mirror update_conv')
    qed
  qed
  from pos have "items = [] \<or> 0 < n" by simp
  from Cons.IH[OF this inv] step show ?case
    by (simp add: andThen_def)
qed

lemma copyRecursive_mirror:
  "height t \<le> n \<Longrightarrow> lookup s src = Some t \<Longrightarrow> lookup s dp = Some (Dir ds) \<Longrightarrow>
     map_of ds x = None \<or> map_of ds x = Some (mirror t) \<Longrightarrow> src \<parallel> dp @ [x] \<Longrightarrow>
     copyRecursive n src (dp @ [x]) s = Some (Done (put (dp @ [x]) (mirror t) s))"
proof (induction t arbitrary: n s src dp x ds)
  case (File b)
  then obtain m where n: "n = Suc m" by (cases n) auto
  from File have "writeFileSync (dp @ [x]) b s = Inr (put (dp @ [x]) (File b) s)"
    by (intro writeFileSync_put) auto
  with File n show ?case
    by (simp add: existsSync_def statSync_isDirectory_def copyFileSync_def)
next
  case (Dir es)
  then obtain m where n: "n = Suc m" by (cases n) auto
  let ?ms = "map (\<lambda>e. (fst e, mirror (snd e))) es"
  let ?items = "map (\<lambda>e. utf8_text (fst e)) es"
  let ?dest = "dp @ [x]"
  have low: "height c \<le> m" if "map_of es y = Some c" for y c
  proof -
    from that have "(y, c) \<in> set es" by (rule map_of_SomeD)
    from height_child[OF this] Dir.prems(1) n show ?thesis by simp
  qed
  have pos: "?items = [] \<or> 0 < m"
  proof (cases es)
    case Nil
    then show ?thesis by simp
  next
    case (Cons e es')
    then have "map_of es (fst e) = Some (snd e)" by simp
    from low[OF this] show ?thesis by (cases m) (simp_all add: height_pos)
  qed
  have rec: "copyRecursive m (src @ [y]) (?dest @ [y]) s' = Some (Done (put (?dest @ [y]) (mirror c) s'))"
    if "map_of es y = Some c" "lookup s' (src @ [y]) = Some c" "lookup s' ?dest = Some (Dir es1)"
      "map_of es1 y = None \<or> map_of es1 y = Some (mirror c)" for y c s' es1
  proof -
    from that(1) have yc: "(y, c) \<in> set es" by (rule map_of_SomeD)
    from Dir.prems(5) have "src @ [y] \<parallel> ?dest @ [y]" by (rule parallel_append)
    from Dir.IH[of "(y, c)" c, OF yc _ low[OF that(1)] that(2) that(3) that(4) this]
    show ?thesis by simp
  qed
  have items: "copyItems m src ?dest ?items (put ?dest (Dir cur) s)
      = Some (Done (put ?dest (Dir (fold (merge_entry ?ms) ?items cur)) s))"
    if "\<And>k v. map_of cur k = Some v \<Longrightarrow> map_of es k \<noteq> None \<and> map_option mirror (map_of es k) = Some v"
    for cur
    using copyItems_mirror[where es = es and cur = cur, OF Dir.prems(2) Dir.prems(3) Dir.prems(5) _ pos that]
      rec by simp
  have rd: "readdirSync src s' = Inr ?items" if "lookup s' src = Some (Dir es)" for s'
    using that by (simp add: readdirSync_def)
  from Dir.prems(4) show ?case
  proof
    assume absent: "map_of ds x = None"
    with Dir.prems have ex: "lookup s ?dest = None" by (simp add: lookup_append)
    from Dir.prems absent have mk: "mkdirSync ?dest s = Inr (put ?dest (Dir []) s)"
      by (intro mkdirSync_put) auto
    from Dir.prems have "lookup (put ?dest (Dir []) s) src = Some (Dir es)"
      by (simp add: put_frame)
    from rd[OF this] items[of "[]"] Dir.prems n ex mk show ?thesis
      by (simp add: existsSync_def statSync_isDirectory_def attempt_def)
  next
    assume there: "map_of ds x = Some (mirror (Dir es))"
    let ?M = "fold (merge_entry ?ms) ?items []"
    from there Dir.prems have ex: "lookup s ?dest = Some (Dir ?M)" by (simp add: lookup_append)
    then have same: "put ?dest (Dir ?M) s = s" by (rule put_triv)
    have inv: "map_of es k \<noteq> None \<and> map_option mirror (map_of es k) = Some v"
      if "map_of ?M k = Some v" for k v
      using that by (auto simp: map_of_fold_merge map_of_mirror_children split: if_splits)
    have "fold (merge_entry ?ms) ?items ?M = ?M"
      by (rule fold_merge_again) (simp add: map_of_fold_merge)
    moreover have "copyItems m src ?dest ?items (put ?dest (Dir ?M) s)
      = Some (Done (put ?dest (Dir (fold (merge_entry ?ms) ?items ?M)) s))"
    proof (rule items)
      fix k v assume "map_of ?M k = Some v"
      then show "map_of es k \<noteq> None \<and> map_option mirror (map_of es k) = Some v" by (rule inv)
    qed
    ultimately have "copyItems m src ?dest ?items s = Some (Done s)" using same by simp
    with rd[OF Dir.prems(2)] Dir.prems n ex same show ?thesis
      by (simp add: existsSync_def statSync_isDirectory_def)
  qed
qed

section \<open>The steps of the script on the output directory\<close>

lemma kept_vercel_output [simp]: "map_of (kept_vercel es) ''output'' = None"
  by (auto simp: kept_vercel_def delete_conv' split: option.splits node.splits)

lemma lookup_outstate_output:
  "map_of vs ''output'' = None \<Longrightarrow>
     lookup (outstate es vs out) (''.vercel'' # ''output'' # q) = lookup out q"
  by (simp add: outstate_def update_conv' map_add_def)

lemma lookup_outstate_other:
  "x \<noteq> ''.vercel'' \<Longrightarrow> lookup (outstate es vs out) (x # q) = lookup (Dir es) (x # q)"
  by (simp add: outstate_def update_conv')

lemma alter_outstate:
  "map_of vs ''output'' = None \<Longrightarrow> q \<noteq> [] \<Longrightarrow>
     alter f (''.vercel'' # ''output'' # q) (outstate es vs out) =
       (case alter f q out of Inl e \<Rightarrow> Inl e | Inr out' \<Rightarrow> Inr (outstate es vs out'))"
  by (cases q)
    (auto simp: outstate_def update_conv' map_add_def update_last update_append_last
      split: sum.splits option.splits)

lemma put_outstate:
  "map_of vs ''output'' = None \<Longrightarrow>
     put (''.vercel'' # ''output'' # q) t (outstate es vs out) = outstate es vs (put q t out)"
  by (auto simp: outstate_def update_conv' map_add_def update_last update_append_last)

lemma reset_output_Dir:
  "reset_output (Dir es) =
     Some (case map_of es ''.vercel'' of
             Some (File b) \<Rightarrow> Crashed ENOTDIR (Dir es)
           | _ \<Rightarrow> Done (outstate es (kept_vercel es) fresh_output))"
proof (cases "map_of es ''.vercel''")
  case None
  then show ?thesis
    by (simp add: reset_output_def existsSync_def outputDir_def staticDir_def attempt_def
        andThen_def outstate_def kept_vercel_def fresh_output_def update_conv' update_last)
next
  case (Some v)
  show ?thesis
  proof (cases v)
    case (File b)
    with Some show ?thesis
      by (simp add: reset_output_def existsSync_def outputDir_def staticDir_def attempt_def
          andThen_def)
  next
    case (Dir vs)
    show ?thesis
    proof (cases "map_of vs ''output''")
      case None
      with Some Dir show ?thesis
        by (simp add: reset_output_def existsSync_def outputDir_def staticDir_def attempt_def
            andThen_def outstate_def kept_vercel_def fresh_output_def update_conv' update_last
            update_absent delete_absent map_add_def update_append_last)
    next
      case old: (Some out)
      have "map_of (AList.delete ''output'' vs) ''output'' = None"
        by (simp add: delete_conv')
      with Some Dir old show ?thesis
        by (simp add: reset_output_def existsSync_def outputDir_def staticDir_def attempt_def
            andThen_def outstate_def kept_vercel_def fresh_output_def update_conv' update_last
            update_absent rmSync_def map_add_def update_append_last)
    qed
  qed
qed

lemma reset_output_File: "reset_output (File b) = Some (Crashed ENOTDIR (File b))"
  by (simp add: reset_output_def existsSync_def outputDir_def staticDir_def attempt_def andThen_def)

lemma staged_fresh: "outstate es vs fresh_output = staged es vs []"
  by (simp add: staged_def fresh_output_def)

lemma lookup_staged_static:
  "map_of vs ''output'' = None \<Longrightarrow> lookup (staged es vs ss) (staticDir @ q) = lookup (Dir ss) q"
  by (simp add: staged_def staticDir_def outputDir_def lookup_outstate_output)

lemma lookup_staged_dist:
  "lookup (staged es vs ss) (''dist'' # q) = lookup (Dir es) (''dist'' # q)"
  by (simp add: staged_def lookup_outstate_other)

lemma mirror_dist_staged:
  assumes vs: "map_of vs ''output'' = None"
    and fuel: "(case map_of es ''dist'' of None \<Rightarrow> 1 | Some t \<Rightarrow> height t) \<le> fuel"
  shows "mirror_dist fuel (staged es vs []) =
     Some (case map_of es ''dist'' of
             None \<Rightarrow> Done (staged es vs [])
           | Some (File b) \<Rightarrow> Crashed EISDIR (staged es vs [])
           | Some (Dir ds) \<Rightarrow> Done (staged es vs (entries (mirror (Dir ds)))))"
proof -
  let ?st = "staged es vs []"
  from fuel obtain m where m: "fuel = Suc m"
    by (cases fuel) (auto split: option.splits simp: height_pos)
  have dist: "lookup ?st [''dist''] = map_of es ''dist''"
    by (simp add: lookup_staged_dist split: option.splits)
  have stat: "lookup ?st staticDir = Some (Dir [])"
    using lookup_staged_static[OF vs, of es "[]" "[]"] by simp
  show ?thesis
  proof (cases "map_of es ''dist''")
    case None
    with dist m show ?thesis
      by (simp add: mirror_dist_def existsSync_def)
  next
    case (Some t)
    show ?thesis
    proof (cases t)
      case (File b)
      have "writeFileSync staticDir b ?st = Inl EISDIR"
        using vs by (simp add: writeFileSync_def staticDir_def outputDir_def staged_def alter_outstate)
      with Some File dist m show ?thesis
        by (simp add: mirror_dist_def existsSync_def statSync_isDirectory_def copyFileSync_def)
    next
      case (Dir ds)
      let ?ms = "map (\<lambda>e. (fst e, mirror (snd e))) ds"
      let ?items = "map (\<lambda>e. utf8_text (fst e)) ds"
      from fuel Some Dir m have hd: "height (Dir ds) \<le> Suc m" by simp
      have low: "height c \<le> m" if "map_of ds y = Some c" for y c
      proof -
        from that have "(y, c) \<in> set ds" by (rule map_of_SomeD)
        from height_child[OF this] hd show ?thesis by simp
      qed
      have pos: "?items = [] \<or> 0 < m"
      proof (cases ds)
        case Nil
        then show ?thesis by simp
      next
        case (Cons e ds')
        then have "map_of ds (fst e) = Some (snd e)" by simp
        from low[OF this] show ?thesis by (cases m) (simp_all add: height_pos)
      qed
      have par: "[''dist''] \<parallel> outputDir @ [''static'']"
        by (simp add: outputDir_def parallel_def)
      have out: "lookup ?st outputDir = Some (Dir [(''static'', Dir []), (''config'', Dir [])])"
        using lookup_outstate_output[OF vs, of es _ "[]"] by (simp add: staged_def outputDir_def)
      have src: "lookup ?st [''dist''] = Some (Dir ds)" using dist Some Dir by simp
      have "copyItems m [''dist''] (outputDir @ [''static'']) ?items
              (put (outputDir @ [''static'']) (Dir []) ?st)
            = Some (Done (put (outputDir @ [''static''])
                 (Dir (fold (merge_entry ?ms) ?items [])) ?st))"
      proof (rule copyItems_mirror[where es = ds, OF src out par _ pos])
        fix y c s' es1
        assume yc: "map_of ds y = Some c" and l1: "lookup s' ([''dist''] @ [y]) = Some c"
          and l2: "lookup s' (outputDir @ [''static'']) = Some (Dir es1)"
          and l3: "map_of es1 y = None \<or> map_of es1 y = Some (mirror c)"
        from par have "[''dist''] @ [y] \<parallel> (outputDir @ [''static'']) @ [y]" by (rule parallel_append)
        from copyRecursive_mirror[OF low[OF yc] l1 l2 l3 this]
        show "copyRecursive m ([''dist''] @ [y]) (outputDir @ [''static''] @ [y]) s'
                = Some (Done (put (outputDir @ [''static''] @ [y]) (mirror c) s'))"
          by simp
      qed simp
      moreover have "put (outputDir @ [''static'']) (Dir []) ?st = ?st"
        using stat by (intro put_triv) (simp add: staticDir_def)
      moreover have "put (outputDir @ [''static'']) (Dir ss) ?st = staged es vs ss" for ss
        using vs by (simp add: staged_def outputDir_def put_outstate)
      ultimately have "copyItems m [''dist''] staticDir ?items ?st
          = Some (Done (staged es vs (entries (mirror (Dir ds)))))"
        by (simp add: staticDir_def)
      with Some Dir dist stat m show ?thesis
        by (simp add: mirror_dist_def existsSync_def statSync_isDirectory_def readdirSync_def
            andThen_def)
    qed
  qed
qed

lemma writeFileSync_staged:
  "map_of vs ''output'' = None \<Longrightarrow>
   writeFileSync (staticDir @ [x]) b (staged es vs ss) =
     (case map_of ss x of
        Some (Dir d) \<Rightarrow> Inl EISDIR
      | _ \<Rightarrow> Inr (staged es vs (AList.update x (File b) ss)))"
  by (simp add: writeFileSync_def staticDir_def outputDir_def staged_def alter_outstate
      split: option.splits node.splits)

lemma copyFileSync_staged_Done:
  assumes vs: "map_of vs ''output'' = None"
  shows "copyFileSync (jsDir @ q) (staticDir @ [x]) (staged es vs ss) = Done s' \<longleftrightarrow>
     (\<exists>b. lookup (Dir es) (jsDir @ q) = Some (File b) \<and> \<not> is_dir (map_of ss x) \<and>
          s' = staged es vs (AList.update x (File b) ss))"
proof -
  have js: "lookup (staged es vs ss) (jsDir @ q) = lookup (Dir es) (jsDir @ q)"
    by (simp add: jsDir_def lookup_staged_dist)
  show ?thesis
  proof (cases "lookup (Dir es) (jsDir @ q)")
    case None
    with js show ?thesis by (simp add: copyFileSync_def)
  next
    case (Some t)
    show ?thesis
    proof (cases t)
      case (File b)
      with Some js show ?thesis
        by (cases "map_of ss x" rule: is_dir.cases)
          (auto simp: copyFileSync_def writeFileSync_staged[OF vs])
    next
      case (Dir d)
      with Some js show ?thesis
        by (simp add: copyFileSync_def split: sum.splits)
    qed
  qed
qed

lemma jsFile_staged: "jsFile (staged es vs ss) = jsFile (Dir es)"
proof -
  have "lookup (staged es vs ss) jsDir = lookup (Dir es) jsDir"
    using lookup_staged_dist[of es vs ss "tl jsDir"] by (simp add: jsDir_def)
  then show ?thesis by (simp add: jsFile_def readdirSync_def)
qed

lemma promote_bundle_jsFile:
  "promote_bundle s =
     (case lookup s jsDir of
        None \<Rightarrow> Some (Done s)
      | Some (File b) \<Rightarrow> Some (Crashed ENOTDIR s)
      | Some (Dir js) \<Rightarrow>
          (case jsFile s of
             None \<Rightarrow> Some (Done s)
           | Some f \<Rightarrow> Some (copyFileSync (jsDir @ [f]) (staticDir @ [''bundle.js'']) s)))"
  by (simp add: promote_bundle_def jsFile_def existsSync_def readdirSync_def
      split: option.splits node.splits)

lemma promote_bundle_staged:
  assumes vs: "map_of vs ''output'' = None"
  shows "promote_bundle (staged es vs ss) = Some (Done s') \<longleftrightarrow>
     \<not> is_file (lookup (Dir es) jsDir) \<and>
     (case jsFile (Dir es) of
        None \<Rightarrow> s' = staged es vs ss
      | Some f \<Rightarrow>
          (\<exists>b. lookup (Dir es) (jsDir @ [f]) = Some (File b) \<and> \<not> is_dir (map_of ss ''bundle.js'') \<and>
             s' = staged es vs (AList.update ''bundle.js'' (File b) ss)))"
proof -
  have js0: "lookup (staged es vs ss) jsDir = lookup (Dir es) jsDir"
    using lookup_staged_dist[of es vs ss "tl jsDir"] by (simp add: jsDir_def)
  show ?thesis
  proof (cases "lookup (Dir es) jsDir")
    case None
    then have "jsFile (Dir es) = None" by (simp add: jsFile_def readdirSync_def)
    with None js0 show ?thesis by (auto simp: promote_bundle_jsFile)
  next
    case (Some t)
    show ?thesis
    proof (cases t)
      case (File b)
      with Some js0 show ?thesis by (simp add: promote_bundle_jsFile)
    next
      case (Dir js)
      with Some js0 show ?thesis
        by (cases "jsFile (Dir es)")
          (auto simp: promote_bundle_jsFile jsFile_staged copyFileSync_staged_Done[OF vs])
    qed
  qed
qed

lemma rewrite_index_staged:
  assumes vs: "map_of vs ''output'' = None"
  shows "rewrite_index (staged es vs ss) =
     Some (case map_of ss ''index.html'' of
             None \<Rightarrow> Done (staged es vs ss)
           | Some (Dir d) \<Rightarrow> Crashed EISDIR (staged es vs ss)
           | Some (File html) \<Rightarrow>
               Done (staged es vs
                 (AList.update ''index.html''
                    (File (replace AppEntry_re src_bundle (utf8_text html))) ss)))"
proof -
  have ix: "lookup (staged es vs ss) indexPath = map_of ss ''index.html''"
    using lookup_staged_static[OF vs, of es ss "[''index.html'']"]
    by (simp add: indexPath_def split: option.splits)
  show ?thesis
    unfolding rewrite_index_def existsSync_def readFileSync_def ix
    by (auto simp: indexPath_def writeFileSync_staged[OF vs] attempt_def
        split: option.splits node.splits)
qed

lemma emit_config_staged:
  "map_of vs ''output'' = None \<Longrightarrow> emit_config (staged es vs ss) = Some (Done (finished es vs ss))"
  by (simp add: emit_config_def writeFileSync_def outputDir_def staged_def finished_def
      alter_outstate attempt_def)

section \<open>The run in closed form\<close>

lemma andThen_Done_iff:
  "andThen r k = Some (Done s') \<longleftrightarrow> (\<exists>s. r = Some (Done s) \<and> k s = Some (Done s'))"
  by (auto simp: andThen_def split: option.splits result.splits)

lemma mirror_dist_Done:
  assumes vs: "map_of vs ''output'' = None" and fuel: "fuel_for (Dir es) \<le> fuel"
  shows "mirror_dist fuel (staged es vs []) = Some (Done s2) \<longleftrightarrow>
     \<not> is_file (map_of es ''dist'') \<and> s2 = staged es vs (mirrored es)"
proof -
  from fuel have f: "(case map_of es ''dist'' of None \<Rightarrow> 1 | Some t \<Rightarrow> height t) \<le> fuel"
    by (simp add: fuel_for_def split: option.splits)
  show ?thesis
    unfolding mirror_dist_staged[OF vs f]
    by (auto simp: mirrored_def split: option.splits node.splits)
qed

lemma promote_bundle_Done:
  assumes vs: "map_of vs ''output'' = None"
  shows "promote_bundle (staged es vs (mirrored es)) = Some (Done s3) \<longleftrightarrow>
     \<not> is_file (lookup (Dir es) jsDir) \<and>
     (case jsFile (Dir es) of
        None \<Rightarrow> True
      | Some f \<Rightarrow> is_file (lookup (Dir es) (jsDir @ [f])) \<and>
          \<not> is_dir (map_of (mirrored es) ''bundle.js'')) \<and>
     s3 = staged es vs (promoted es)"
  unfolding promote_bundle_staged[OF vs]
  by (cases "jsFile (Dir es)") (auto simp: promoted_def is_file_iff)

lemma rewrite_emit_Done:
  assumes vs: "map_of vs ''output'' = None"
  shows "andThen (rewrite_index (staged es vs (promoted es))) emit_config = Some (Done s') \<longleftrightarrow>
     \<not> is_dir (map_of (promoted es) ''index.html'') \<and> s' = finished es vs (rewritten es)"
  by (auto simp: rewrite_index_staged[OF vs] emit_config_staged[OF vs] rewritten_def
      split: option.splits node.splits)

lemma reset_output_Done:
  "reset_output (Dir es) = Some (Done s1) \<longleftrightarrow>
     \<not> is_file (map_of es ''.vercel'') \<and> s1 = staged es (kept_vercel es) []"
  by (cases "map_of es ''.vercel''" rule: is_file.cases)
    (auto simp: reset_output_Dir staged_fresh)

lemma build_vercel_Done_iff:
  assumes fuel: "fuel_for (Dir es) \<le> fuel"
  shows "build_vercel fuel (Dir es) = Some (Done s') \<longleftrightarrow> clean es \<and> s' = packaged es"
  unfolding build_vercel_def andThen_Done_iff[of "reset_output (Dir es)"] reset_output_Done
    andThen_Done_iff[of "mirror_dist fuel s" for s] andThen_Done_iff[of "promote_bundle s" for s]
  by (auto simp: mirror_dist_Done[OF kept_vercel_output fuel]
      promote_bundle_Done[OF kept_vercel_output] rewrite_emit_Done[OF kept_vercel_output]
      clean_def packaged_def)

lemma build_vercel_File: "build_vercel fuel (File b) = Some (Crashed ENOTDIR (File b))"
  by (simp add: build_vercel_def reset_output_File)

text \<open>A completed run, read through the closed form.\<close>

lemma build_vercel_DoneD:
  assumes "fuel_for fs \<le> fuel" "build_vercel fuel fs = Some (Done s')"
  obtains es where "fs = Dir es" "clean es" "s' = packaged es"
proof (cases fs)
  case (File b)
  with assms(2) show ?thesis by (simp add: build_vercel_File)
next
  case (Dir es)
  with assms build_vercel_Done_iff[of es fuel s'] that show ?thesis
    by blast
qed

text \<open>The first three steps of a run on which they do not throw.\<close>

lemma promoted_stage:
  assumes fuel: "fuel_for (Dir es) \<le> fuel"
    and "\<not> is_file (map_of es ''.vercel'')" "\<not> is_file (map_of es ''dist'')"
    and "\<not> is_file (lookup (Dir es) jsDir)"
    and "case jsFile (Dir es) of None \<Rightarrow> True
         | Some f \<Rightarrow> is_file (lookup (Dir es) (jsDir @ [f])) \<and>
             \<not> is_dir (map_of (mirrored es) ''bundle.js'')"
  shows "build_vercel fuel (Dir es) =
     andThen (rewrite_index (staged es (kept_vercel es) (promoted es))) emit_config"
proof -
  from assms(2) have "reset_output (Dir es) = Some (Done (staged es (kept_vercel es) []))"
    by (simp add: reset_output_Done)
  moreover from assms(3)
  have "mirror_dist fuel (staged es (kept_vercel es) []) = Some (Done (staged es (kept_vercel es) (mirrored es)))"
    by (simp add: mirror_dist_Done[OF kept_vercel_output fuel])
  moreover from assms(4,5)
  have "promote_bundle (staged es (kept_vercel es) (mirrored es))
      = Some (Done (staged es (kept_vercel es) (promoted es)))"
    by (simp add: promote_bundle_Done[OF kept_vercel_output])
  ultimately show ?thesis by (simp add: build_vercel_def)
qed

lemma lookup_packaged_output:
  "lookup (packaged es) (outputDir @ q) =
     lookup (Dir [(''static'', Dir (rewritten es)), (''config'', Dir []),
                  (''config.json'', File (JSON_stringify_2 config))]) q"
  by (simp add: packaged_def finished_def outputDir_def lookup_outstate_output)

lemma lookup_packaged_static:
  "lookup (packaged es) (staticDir @ q) = lookup (Dir (rewritten es)) q"
  using lookup_packaged_output[of es "''static'' # q"] by (simp add: staticDir_def)

lemma lookup_staged_output:
  "map_of vs ''output'' = None \<Longrightarrow>
   lookup (staged es vs ss) (outputDir @ q) = lookup (Dir [(''static'', Dir ss), (''config'', Dir [])]) q"
  by (simp add: staged_def outputDir_def lookup_outstate_output)

lemma map_of_promoted_other:
  "x \<noteq> ''bundle.js'' \<Longrightarrow> map_of (promoted es) x = map_of (mirrored es) x"
  by (simp add: promoted_def update_conv' split: option.splits node.splits)

lemma map_of_rewritten_other:
  "x \<noteq> ''index.html'' \<Longrightarrow> map_of (rewritten es) x = map_of (promoted es) x"
  by (simp add: rewritten_def update_conv' split: option.splits node.splits)

lemma closed_form_cong:
  assumes "map_of es' ''dist'' = map_of es ''dist''"
  shows "mirrored es' = mirrored es" and "jsFile (Dir es') = jsFile (Dir es)"
    and "lookup (Dir es') (jsDir @ q) = lookup (Dir es) (jsDir @ q)"
    and "promoted es' = promoted es" and "rewritten es' = rewritten es"
proof -
  show m: "mirrored es' = mirrored es" unfolding mirrored_def assms ..
  show l: "lookup (Dir es') (jsDir @ q) = lookup (Dir es) (jsDir @ q)" for q
    by (simp add: jsDir_def assms)
  from l[of "[]"] have l0: "lookup (Dir es') jsDir = lookup (Dir es) jsDir" by simp
  show j: "jsFile (Dir es') = jsFile (Dir es)" unfolding jsFile_def readdirSync_def l0 ..
  show p: "promoted es' = promoted es" unfolding promoted_def m j l ..
  show "rewritten es' = rewritten es" unfolding rewritten_def p ..
qed

text \<open>The mirror of a tree, looked up along names that are well-formed UTF-8.\<close>

lemma utf8_listed:
  assumes "map_of es x = Some c" "utf8_text x = x"
  shows "x \<in> set (map (\<lambda>e. utf8_text (fst e)) es)"
proof -
  from assms(1) have "(x, c) \<in> set es" by (rule map_of_SomeD)
  then have "utf8_text (fst (x, c)) \<in> (\<lambda>e. utf8_text (fst e)) ` set es" by (rule imageI)
  with assms(2) show ?thesis by simp
qed

lemma map_of_mirror:
  "utf8_text x = x \<Longrightarrow> map_of (entries (mirror (Dir es))) x = map_option mirror (map_of es x)"
  by (cases "map_of es x")
    (auto simp: map_of_fold_merge map_of_mirror_children dest: utf8_listed)

lemma lookup_mirror:
  "\<forall>x \<in> set P. utf8_text x = x \<Longrightarrow> lookup (mirror t) P = map_option mirror (lookup t P)"
proof (induction P arbitrary: t)
  case Nil
  then show ?case by simp
next
  case (Cons x P)
  show ?case
  proof (cases t)
    case (File b)
    then show ?thesis by simp
  next
    case (Dir es)
    from Cons.prems have x: "utf8_text x = x" by simp
    from map_of_mirror[OF x, of es]
    have m: "map_of (entries (mirror (Dir es))) x = map_option mirror (map_of es x)" .
    show ?thesis
    proof (cases "map_of es x")
      case None
      with m Dir show ?thesis by simp
    next
      case (Some c)
      with m Dir Cons.IH[of c] Cons.prems show ?thesis by simp
    qed
  qed
qed

lemma map_of_mirrored:
  "utf8_text x = x \<Longrightarrow> map_of (mirrored es) x = map_option mirror (lookup (Dir es) [''dist'', x])"
proof (cases "map_of es ''dist''")
  case None
  then show ?thesis by (simp add: mirrored_def)
next
  case (Some t)
  assume x: "utf8_text x = x"
  show ?thesis
  proof (cases t)
    case (File b)
    with Some show ?thesis by (simp add: mirrored_def)
  next
    case (Dir ds)
    with Some map_of_mirror[OF x, of ds] show ?thesis
      by (simp add: mirrored_def split: option.splits)
  qed
qed

lemma lookup_mirrored:
  assumes "\<forall>x \<in> set P. utf8_text x = x" "P \<noteq> []"
  shows "lookup (Dir (mirrored es)) P = map_option mirror (lookup (Dir es) (''dist'' # P))"
proof (cases "map_of es ''dist''")
  case None
  with assms(2) show ?thesis by (cases P) (simp_all add: mirrored_def)
next
  case (Some t)
  show ?thesis
  proof (cases t)
    case (File b)
    with Some assms(2) show ?thesis by (cases P) (simp_all add: mirrored_def)
  next
    case (Dir ds)
    with Some have "Dir (mirrored es) = mirror t" by (simp add: mirrored_def)
    with lookup_mirror[OF assms(1), of t] Some show ?thesis by simp
  qed
qed

lemma ascii_names [simp]:
  "utf8_text ''bundle.js'' = ''bundle.js''" "utf8_text ''index.html'' = ''index.html''"
  "utf8_text ''config.json'' = ''config.json''"
  by simp_all

lemma is_dir_mirror [simp]: "is_dir (map_option mirror n) = is_dir n"
  by (cases n rule: is_dir.cases) simp_all

lemma is_file_mirror [simp]: "is_file (map_option mirror n) = is_file n"
  by (cases n rule: is_file.cases) simp_all

lemma dir_at_jsDir:
  assumes "is_dir (lookup (Dir es) jsDir)"
  shows "\<not> is_file (map_of es ''dist'')" and "\<not> is_file (lookup (Dir es) jsDir)"
  using assms by (auto simp: jsDir_def is_dir_iff is_file_iff split: option.splits)

text \<open>The mirror of a tree with distinct names that are well-formed UTF-8 is the tree.\<close>

lemma fold_merge_distinct:
  assumes "distinct (map fst es)"
  shows "set xs \<subseteq> set es \<Longrightarrow> distinct (map fst (acc @ xs)) \<Longrightarrow>
           fold (merge_entry es) (map fst xs) acc = acc @ xs"
proof (induction xs arbitrary: acc)
  case Nil
  then show ?case by simp
next
  case (Cons x xs)
  from Cons.prems(1) have "(fst x, snd x) \<in> set es" by simp
  with assms have m: "map_of es (fst x) = Some (snd x)" by (rule map_of_is_SomeI)
  from Cons.prems(2) have "fst x \<notin> fst ` set acc" by auto
  then have "map_of acc (fst x) = None" by (simp add: map_of_eq_None_iff)
  with m have "merge_entry es (fst x) acc = acc @ [x]"
    by (simp add: merge_entry_def update_absent)
  with Cons.IH[of "acc @ [x]"] Cons.prems show ?case by simp
qed

lemma mirror_wellnamed: "wellnamed t \<Longrightarrow> mirror t = t"
proof (induction t rule: mirror.induct)
  case (1 b)
  then show ?case by simp
next
  case (2 es)
  have c: "map (\<lambda>e. (fst e, mirror (snd e))) es = es"
  proof (rule map_idI)
    fix e assume e: "e \<in> set es"
    then have "fst e \<in> fst ` set es" by (rule imageI)
    with 2 e have "mirror (snd e) = snd e" by (cases e) (auto, metis fst_conv imageI)
    then show "(fst e, mirror (snd e)) = e" by simp
  qed
  from 2 have n: "map (\<lambda>e. utf8_text (fst e)) es = map fst es"
    by auto
  from 2 have "distinct (map fst es)" by simp
  from fold_merge_distinct[OF this, of es "[]"] this show ?case
    by (simp add: c n)
qed

section \<open>The pattern matcher\<close>















section \<open>The manifest\<close>

lemma config_pretty: "JSON_stringify_2 config = pretty_manifest"
  by code_simp

lemma config_parses_back: "JSON_parse (JSON_stringify_2 config) = Some routing_manifest"
  by code_simp

section \<open>What the steps of the script leave alone\<close>

lemma attempt_keeps:
  assumes "\<And>s'. r = Inr s' \<Longrightarrow> lookup s' q = lookup s q"
  shows "\<exists>res. attempt s r = Some res \<and> lookup (state_of res) q = lookup s q"
  using assms by (cases r) (auto simp: attempt_def)

lemma andThen_keeps:
  assumes "\<exists>res. a = Some res \<and> lookup (state_of res) q = D"
    and "\<And>s. lookup s q = D \<Longrightarrow> \<exists>res. k s = Some res \<and> lookup (state_of res) q = D"
  shows "\<exists>res. andThen a k = Some res \<and> lookup (state_of res) q = D"
proof -
  from assms(1) obtain res where res: "a = Some res" "lookup (state_of res) q = D" by blast
  show ?thesis
  proof (cases res)
    case (Done s)
    with res assms(2)[of s] show ?thesis by simp
  next
    case (Crashed e s)
    with res show ?thesis by simp
  qed
qed

lemma dist_parallel:
  "[''dist''] \<parallel> outputDir" "[''dist''] \<parallel> staticDir" "[''dist''] \<parallel> outputDir @ p"
  "[''dist''] \<parallel> staticDir @ p"
  by (simp_all add: outputDir_def staticDir_def parallel_def)

lemma bundle_parallel:
  "staticDir @ [''bundle.js''] \<parallel> indexPath"
  "staticDir @ [''bundle.js''] \<parallel> outputDir @ [''config.json'']"
  by (simp_all add: outputDir_def staticDir_def indexPath_def parallel_def)

lemma reset_output_keeps:
  "\<exists>res. reset_output s = Some res \<and> lookup (state_of res) [''dist''] = lookup s [''dist'']"
  unfolding reset_output_def
proof (rule andThen_keeps)
  show "\<exists>res. (if existsSync outputDir s then attempt s (rmSync outputDir s) else Some (Done s))
            = Some res \<and> lookup (state_of res) [''dist''] = lookup s [''dist'']"
    using attempt_keeps[of "rmSync outputDir s" "[''dist'']" s] rmSync_frame[OF _ dist_parallel(1)]
    by auto
next
  fix s1 assume s1: "lookup s1 [''dist''] = lookup s [''dist'']"
  show "\<exists>res. andThen (attempt s1 (mkdirSync staticDir s1))
            (\<lambda>s2. attempt s2 (mkdirSync (outputDir @ [''config'']) s2)) = Some res \<and>
          lookup (state_of res) [''dist''] = lookup s [''dist'']"
  proof (rule andThen_keeps)
    show "\<exists>res. attempt s1 (mkdirSync staticDir s1) = Some res \<and>
            lookup (state_of res) [''dist''] = lookup s [''dist'']"
      using attempt_keeps[of "mkdirSync staticDir s1" "[''dist'']" s1]
        mkdirSync_frame[OF _ dist_parallel(2)] s1 by auto
  next
    fix s2 assume s2: "lookup s2 [''dist''] = lookup s [''dist'']"
    show "\<exists>res. attempt s2 (mkdirSync (outputDir @ [''config'']) s2) = Some res \<and>
            lookup (state_of res) [''dist''] = lookup s [''dist'']"
      using attempt_keeps[of "mkdirSync (outputDir @ [''config'']) s2" "[''dist'']" s2]
        mkdirSync_frame[OF _ dist_parallel(3)] s2 by auto
  qed
qed

lemma mirror_dist_keeps:
  assumes "fuel_for s \<le> fuel"
  shows "\<exists>res. mirror_dist fuel s = Some res \<and> lookup (state_of res) [''dist''] = lookup s [''dist'']"
proof -
  from assms have "copyRecursive fuel [''dist''] staticDir s \<noteq> None"
    by (intro copyRecursive_returns dist_parallel) (simp add: fuel_for_def)
  then obtain res where res: "copyRecursive fuel [''dist''] staticDir s = Some res" by auto
  with copy_frame(1)[of fuel "[''dist'']" staticDir s res "[''dist'']"] dist_parallel(2)
  show ?thesis by (simp add: mirror_dist_def)
qed

lemma promote_bundle_keeps:
  assumes "q \<parallel> staticDir @ [''bundle.js'']"
  shows "\<exists>res. promote_bundle s = Some res \<and> lookup (state_of res) q = lookup s q"
  using copyFileSync_frame[OF assms]
  by (auto simp: promote_bundle_def split: sum.splits option.splits)

lemma rewrite_index_keeps:
  assumes "q \<parallel> indexPath"
  shows "\<exists>res. rewrite_index s = Some res \<and> lookup (state_of res) q = lookup s q"
proof -
  have "\<exists>res. attempt s (writeFileSync indexPath d s) = Some res \<and>
          lookup (state_of res) q = lookup s q" for d
    using attempt_keeps[of "writeFileSync indexPath d s" q s]
      writeFileSync_frame[OF _ assms] by auto
  then show ?thesis
    by (auto simp: rewrite_index_def split: sum.splits)
qed

lemma emit_config_keeps:
  assumes "q \<parallel> outputDir @ [''config.json'']"
  shows "\<exists>res. emit_config s = Some res \<and> lookup (state_of res) q = lookup s q"
  unfolding emit_config_def
  using attempt_keeps[of "writeFileSync (outputDir @ [''config.json'']) (JSON_stringify_2 config) s" q s]
    writeFileSync_frame[OF _ assms] by auto

lemma rewrite_emit_keeps:
  assumes "q \<parallel> indexPath" "q \<parallel> outputDir @ [''config.json'']"
  shows "\<exists>res. andThen (rewrite_index s) emit_config = Some res \<and>
           lookup (state_of res) q = lookup s q"
proof (rule andThen_keeps[OF rewrite_index_keeps[OF assms(1)]])
  fix s4 assume "lookup s4 q = lookup s q"
  with emit_config_keeps[OF assms(2), of s4]
  show "\<exists>res. emit_config s4 = Some res \<and> lookup (state_of res) q = lookup s q" by simp
qed

section \<open>The example site\<close>

lemma site_fuel: "fuel_for site \<le> 6"
  by (simp add: fuel_for_def site_def site_entries_def web_entries_def)

lemma site_clean: "clean site_entries"
  by code_simp

lemma site_run: "build_vercel 6 site = Some (Done (packaged site_entries))"
  using build_vercel_Done_iff[of site_entries 6 "packaged site_entries"] site_fuel site_clean
  by (simp add: site_def)

lemma site_listing: "readdirSync jsDir site = Inr [''README.md'', ''AppEntry-abc123.js'']"
  by code_simp

lemma site_bundle: "lookup site (jsDir @ [''AppEntry-abc123.js'']) = Some (File ''console.log(1)'')"
  by code_simp

section \<open>The claims\<close>

text \<open>
  Claim C1 (mirroring completeness), as the code has it. The claim says that every file
  below \<^verbatim>\<open>dist\<close> has a byte-identical copy at the same relative path below
  \<^verbatim>\<open>.vercel/output/static\<close>. Three things stand against it. The later steps of
  the script overwrite two of the copies on purpose: the root \<^verbatim>\<open>index.html\<close> is
  rewritten and a root \<^verbatim>\<open>bundle.js\<close> is replaced by the promoted bundle. And
  \<^verbatim>\<open>copyRecursive\<close> finds nothing under a listed name that is not the name on
  disk, so an entry whose name is not well-formed UTF-8 is left out. What holds after a
  completed run: every file at a relative path \<open>P\<close> below \<^verbatim>\<open>dist\<close> whose
  components are well-formed UTF-8 has a file at \<open>P\<close> below the static directory; its
  bytes are the same unless \<open>P\<close> is the root \<^verbatim>\<open>index.html\<close>, which holds the
  text of the page, read as UTF-8, after the replacement, or the root
  \<^verbatim>\<open>bundle.js\<close>, which holds the bytes of the file the promotion step selects
  when it selects one.
\<close>

theorem mirror_completeness_except_rewritten:
  assumes fuel: "fuel_for fs \<le> fuel"
    and run: "build_vercel fuel fs = Some (Done s')"
    and src: "lookup fs (''dist'' # P) = Some (File b)"
    and names: "\<forall>x \<in> set P. utf8_text x = x"
  shows "(P \<noteq> [''index.html''] \<and> P \<noteq> [''bundle.js''] \<longrightarrow>
            lookup s' (staticDir @ P) = Some (File b)) \<and>
         (P = [''index.html''] \<longrightarrow>
            lookup s' (staticDir @ P) = Some (File (replace AppEntry_re src_bundle (utf8_text b)))) \<and>
         (P = [''bundle.js''] \<longrightarrow>
            lookup s' (staticDir @ P) =
              (case jsFile fs of None \<Rightarrow> Some (File b) | Some f \<Rightarrow> lookup fs (jsDir @ [f])))"
proof -
  from fuel run obtain es where es: "fs = Dir es" "clean es" "s' = packaged es"
    by (rule build_vercel_DoneD)
  from src es(1,2) have ne: "P \<noteq> []"
    by (auto simp: clean_def split: option.splits)
  from lookup_mirrored[OF names ne, of es] src es(1)
  have "lookup (Dir (mirrored es)) P = Some (File b)" by simp
  with ne obtain x P' c where P: "P = x # P'" "map_of (mirrored es) x = Some c"
      "lookup c P' = Some (File b)"
    by (cases P) (auto split: option.splits)
  have goal: "lookup s' (staticDir @ P) = lookup (Dir (rewritten es)) (x # P')"
    using es P by (simp add: lookup_packaged_static)
  show ?thesis
  proof (cases "x = ''index.html''")
    case True
    with P have pi: "map_of (promoted es) ''index.html'' = Some c"
      by (simp add: map_of_promoted_other)
    with es(2) obtain h where h: "c = File h"
      by (cases c) (auto simp: clean_def)
    with P have "P' = []" "h = b" by (cases P'; simp)+
    with pi h have "map_of (rewritten es) ''index.html''
        = Some (File (replace AppEntry_re src_bundle (utf8_text b)))"
      by (simp add: rewritten_def update_conv')
    with goal True P \<open>P' = []\<close> show ?thesis by simp
  next
    case nix: False
    show ?thesis
    proof (cases "x = ''bundle.js''")
      case False
      with nix P have "map_of (rewritten es) x = Some c"
        by (simp add: map_of_rewritten_other map_of_promoted_other)
      with goal P nix False show ?thesis by simp
    next
      case True
      show ?thesis
      proof (cases "jsFile (Dir es)")
        case None
        then have "promoted es = mirrored es"
          by (simp add: promoted_def)
        with True P have "map_of (rewritten es) x = Some c"
          by (simp add: map_of_rewritten_other)
        with goal P True None es(1) show ?thesis by auto
      next
        case (Some f)
        with es(2) obtain b' where b': "lookup (Dir es) (jsDir @ [f]) = Some (File b')"
          by (auto simp: clean_def is_file_iff)
        from es(2) Some True P have "\<not> is_dir (Some c)" by (simp add: clean_def)
        with P have "P' = []" by (cases c; cases P') auto
        from Some b' have "map_of (rewritten es) ''bundle.js'' = Some (File b')"
          by (simp add: map_of_rewritten_other promoted_def update_conv')
        with goal True P \<open>P' = []\<close> Some b' es(1) show ?thesis by simp
      qed
    qed
  qed
qed

text \<open>
  In the example site the asset reaches the static directory unchanged, the entry page
  is rewritten and the bundle of the site is replaced by the Expo bundle.
\<close>

theorem mirror_completeness_witness:
  \<open>\<exists>s'. build_vercel 6 site = Some (Done s') \<and>
     lookup s' (staticDir @ [''assets'', ''logo.png'']) = Some (File ''PNG'') \<and>
     lookup s' (staticDir @ [''index.html'']) = Some (File ''<script src="/bundle.js">'') \<and>
     lookup s' (staticDir @ [''bundle.js'']) = Some (File ''console.log(1)'')\<close>
proof -
  have asset: "lookup site (''dist'' # [''assets'', ''logo.png'']) = Some (File ''PNG'')"
    and page: "lookup site (''dist'' # [''index.html'']) = Some (File site_html)"
    and root: "lookup site (''dist'' # [''bundle.js'']) = Some (File ''old bundle'')"
    by (simp_all add: site_def site_entries_def)
  have names: "\<forall>x \<in> set [''assets'', ''logo.png'']. utf8_text x = x"
    "\<forall>x \<in> set [''index.html'']. utf8_text x = x" "\<forall>x \<in> set [''bundle.js'']. utf8_text x = x"
    by simp_all
  have new: \<open>replace AppEntry_re src_bundle (utf8_text site_html) = ''<script src="/bundle.js">''\<close>
    by code_simp
  have sel: "jsFile site = Some ''AppEntry-abc123.js''"
    by code_simp
  from mirror_completeness_except_rewritten[OF site_fuel site_run asset names(1)]
    mirror_completeness_except_rewritten[OF site_fuel site_run page names(2)]
    mirror_completeness_except_rewritten[OF site_fuel site_run root names(3)]
    site_run new sel site_bundle
  show ?thesis by simp
qed

text \<open>
  The claim as written fails in three ways. In the scenario of the specification the
  entry page below \<^verbatim>\<open>dist\<close> and its copy differ. The bundle of a site that has
  one of its own is replaced by the Expo bundle. A file whose name is the byte
  \<^verbatim>\<open>FF\<close> has no copy.
\<close>

theorem mirror_completeness_counterexample:
  "build_vercel 3 (Dir scenario_entries) = Some (Done scenario_out) \<and>
   lookup (Dir scenario_entries) [''dist'', ''index.html''] = Some (File scenario_html) \<and>
   lookup scenario_out (staticDir @ [''index.html'']) \<noteq> Some (File scenario_html) \<and>
   build_vercel 6 (Dir two_bundles_entries) = Some (Done two_bundles_out) \<and>
   lookup (Dir two_bundles_entries) [''dist'', ''bundle.js''] = Some (File ''console.log(0)'') \<and>
   lookup two_bundles_out (staticDir @ [''bundle.js'']) = Some (File ''console.log(1)'') \<and>
   build_vercel 2 (Dir odd_name_entries) = Some (Done odd_name_out) \<and>
   lookup (Dir odd_name_entries) [''dist'', [CHR 0xFF]] = Some (File ''data'') \<and>
   lookup odd_name_out (staticDir @ [[CHR 0xFF]]) = None"
  by code_simp

text \<open>
  Claim C2 (bundle promotion), as the code has it. The claim says that when
  \<^verbatim>\<open>dist/_expo/static/js/web\<close> exists and has an entry whose name starts with
  \<^verbatim>\<open>AppEntry\<close> and ends with \<^verbatim>\<open>.js\<close>, the static root has a file
  \<^verbatim>\<open>bundle.js\<close> with the bytes of the first such entry. The script throws before
  or while it copies when \<^verbatim>\<open>.vercel\<close> is a regular file, when \<^verbatim>\<open>dist\<close> has
  a directory \<^verbatim>\<open>bundle.js\<close> at its root, and when the selected name, which
  \<^verbatim>\<open>readdirSync\<close> has read as UTF-8, is not the name on disk. What holds: let
  \<open>files\<close> be the listing of the directory and \<open>files ! i\<close> the first name in it
  that starts with \<^verbatim>\<open>AppEntry\<close> and ends with \<^verbatim>\<open>.js\<close>; when a regular
  file with bytes \<open>b\<close> is found under that name, \<^verbatim>\<open>.vercel\<close> is not a regular
  file and \<^verbatim>\<open>dist/bundle.js\<close> is not a directory, the script returns and, whether
  it has finished or a later step has thrown, \<^verbatim>\<open>bundle.js\<close> at the static root is
  a file with the bytes \<open>b\<close>.
\<close>

theorem bundle_promotion:
  assumes fuel: "fuel_for fs \<le> fuel"
    and vercel: "\<not> is_file (lookup fs [''.vercel''])"
    and listing: "readdirSync jsDir fs = Inr files"
    and i: "i < length files"
    and name: "prefix ''AppEntry'' (files ! i)" "suffix ''.js'' (files ! i)"
    and first: "\<forall>j < i. \<not> (prefix ''AppEntry'' (files ! j) \<and> suffix ''.js'' (files ! j))"
    and entry: "lookup fs (jsDir @ [files ! i]) = Some (File b)"
    and own: "\<not> is_dir (lookup fs [''dist'', ''bundle.js''])"
  shows "\<exists>r. build_vercel fuel fs = Some r \<and>
           lookup (state_of r) (staticDir @ [''bundle.js'']) = Some (File b)"
proof -
  from listing obtain es where es: "fs = Dir es"
    by (cases fs) (auto simp: readdirSync_def jsDir_def)
  let ?st = "staged es (kept_vercel es) (promoted es)"
  from i name first have "find isAppEntry files = Some (files ! i)"
    by (auto simp: find_Some_iff isAppEntry_def intro!: exI[of _ i])
  with listing es have js: "jsFile (Dir es) = Some (files ! i)"
    by (simp add: jsFile_def)
  from listing es have "is_dir (lookup (Dir es) jsDir)"
    by (auto simp: readdirSync_def split: option.splits node.splits)
  note dir = dir_at_jsDir[OF this]
  from own es have "\<not> is_dir (map_of (mirrored es) ''bundle.js'')"
    by (simp add: map_of_mirrored)
  with js entry es
  have sel: "case jsFile (Dir es) of None \<Rightarrow> True
         | Some f \<Rightarrow> is_file (lookup (Dir es) (jsDir @ [f])) \<and>
             \<not> is_dir (map_of (mirrored es) ''bundle.js'')"
    by simp
  from vercel es have "\<not> is_file (map_of es ''.vercel'')"
    by (simp add: lookup_single del: lookup.simps)
  from promoted_stage[OF fuel[unfolded es] this dir sel]
  have run: "build_vercel fuel fs = andThen (rewrite_index ?st) emit_config"
    by (simp add: es)
  from js entry es have "map_of (promoted es) ''bundle.js'' = Some (File b)"
    by (simp add: promoted_def update_conv')
  then have "lookup ?st (staticDir @ [''bundle.js'']) = Some (File b)"
    by (simp add: lookup_staged_static)
  with rewrite_emit_keeps[OF bundle_parallel, of ?st] run show ?thesis
    by simp
qed

text \<open>In the example site the bundle is the second entry of its directory.\<close>

theorem bundle_promotion_witness:
  "\<exists>r. build_vercel 6 site = Some r \<and>
     lookup (state_of r) (staticDir @ [''bundle.js'']) = Some (File ''console.log(1)'')"
proof -
  let ?files = "[''README.md'', ''AppEntry-abc123.js'']"
  have vercel: "\<not> is_file (lookup site [''.vercel''])"
    and own: "\<not> is_dir (lookup site [''dist'', ''bundle.js''])"
    by (simp_all add: site_def site_entries_def)
  have i: "1 < length ?files"
    and n1: "prefix ''AppEntry'' (?files ! 1)"
    and n2: "suffix ''.js'' (?files ! 1)"
    and first: "\<forall>j < 1. \<not> (prefix ''AppEntry'' (?files ! j) \<and> suffix ''.js'' (?files ! j))"
    by (simp_all add: suffix_def)
  have entry: "lookup site (jsDir @ [?files ! 1]) = Some (File ''console.log(1)'')"
    using site_bundle by simp
  from bundle_promotion[OF site_fuel vercel site_listing i n1 n2 first entry own]
  show ?thesis .
qed

text \<open>
  The claim as written fails in three ways. When the root \<^verbatim>\<open>bundle.js\<close> of the site
  is a directory the copy throws and the static root is left with the directory. When
  \<^verbatim>\<open>.vercel\<close> is a regular file the script throws in its first step and there is
  no output. When the name of the bundle has the byte \<^verbatim>\<open>FF\<close> in it, the name
  selected is the listed one, with the bytes \<^verbatim>\<open>EF BF BD\<close> in its place, under
  which there is no file.
\<close>

theorem bundle_promotion_counterexample:
  "lookup (Dir bundle_dir_entries) jsDir = Some (Dir [(''AppEntry-1.js'', File ''console.log(1)'')]) \<and>
   build_vercel 6 (Dir bundle_dir_entries) = Some (Crashed EISDIR bundle_dir_stopped) \<and>
   lookup bundle_dir_stopped (staticDir @ [''bundle.js'']) = Some (Dir []) \<and>
   lookup vercel_file jsDir = Some (Dir [(''AppEntry-1.js'', File ''console.log(1)'')]) \<and>
   build_vercel 6 vercel_file = Some (Crashed ENOTDIR vercel_file) \<and>
   lookup vercel_file (staticDir @ [''bundle.js'']) = None \<and>
   lookup (Dir odd_bundle_entries) jsDir
     = Some (Dir [(''AppEntry-'' @ [CHR 0xFF] @ ''.js'', File ''console.log(1)'')]) \<and>
   build_vercel 6 (Dir odd_bundle_entries) = Some (Crashed ENOENT odd_bundle_stopped) \<and>
   lookup odd_bundle_stopped (staticDir @ [''bundle.js'']) = None"
  by code_simp



text \<open>
  Claim C4 (manifest exactness). After a completed run \<^verbatim>\<open>config.json\<close> at the output
  root holds the manifest printed with a gap of two spaces, the text \<open>pretty_manifest\<close>;
  read back, that text is the structure of section 6 of the specification; and the static
  directory holds under \<^verbatim>\<open>config.json\<close> the copy of what \<^verbatim>\<open>dist\<close> has
  under that name at its root, nothing if it has nothing: the manifest is written beside
  the static directory, not into it. (The copy \<open>mirror t\<close> of a file is the file; the
  copy of a directory is the directory when its names are distinct and well-formed UTF-8,
  by \<open>mirror_wellnamed\<close>.)
\<close>

theorem manifest_exact:
  assumes fuel: "fuel_for fs \<le> fuel"
    and run: "build_vercel fuel fs = Some (Done s')"
  shows "lookup s' (outputDir @ [''config.json'']) = Some (File (JSON_stringify_2 config)) \<and>
         JSON_stringify_2 config = pretty_manifest \<and>
         JSON_parse (JSON_stringify_2 config) = Some routing_manifest \<and>
         lookup s' (staticDir @ [''config.json''])
           = map_option mirror (lookup fs [''dist'', ''config.json''])"
proof -
  from fuel run obtain es where es: "fs = Dir es" "clean es" "s' = packaged es"
    by (rule build_vercel_DoneD)
  have "map_of (rewritten es) ''config.json'' = map_of (mirrored es) ''config.json''"
    by (simp add: map_of_rewritten_other map_of_promoted_other)
  also have "\<dots> = map_option mirror (lookup (Dir es) [''dist'', ''config.json''])"
    by (rule map_of_mirrored) simp
  finally have "lookup s' (staticDir @ [''config.json''])
      = map_option mirror (lookup fs [''dist'', ''config.json''])"
    using es by (simp add: lookup_packaged_static lookup_single del: lookup.simps)
  with es config_parses_back config_pretty show ?thesis
    by (simp add: lookup_packaged_output)
qed

text \<open>The example site has no \<^verbatim>\<open>config.json\<close> of its own.\<close>

theorem manifest_exact_witness:
  "\<exists>s'. build_vercel 6 site = Some (Done s') \<and>
     lookup s' (outputDir @ [''config.json'']) = Some (File pretty_manifest) \<and>
     JSON_parse pretty_manifest = Some routing_manifest \<and>
     lookup s' (staticDir @ [''config.json'']) = None"
proof -
  have "lookup site [''dist'', ''config.json''] = None"
    by (simp add: site_def site_entries_def)
  with manifest_exact[OF site_fuel site_run, unfolded config_pretty] site_run
  show ?thesis by simp
qed

text \<open>
  Claim C5 (expected absences are skipped), as the code has it. The claim says that
  without \<^verbatim>\<open>dist\<close>, without the nested JS directory, or without a matching file in
  it, the run completes and the output has no \<^verbatim>\<open>bundle.js\<close>. The mirror step
  copies a root \<^verbatim>\<open>bundle.js\<close> of \<^verbatim>\<open>dist\<close> like any other entry, so the
  output has one when the site has one. And the script throws although what the claim
  names is absent when \<^verbatim>\<open>.vercel\<close> is a regular file, when \<^verbatim>\<open>dist\<close> is a
  regular file, when \<^verbatim>\<open>dist/index.html\<close> is a directory and when the nested JS
  path is a regular file. What holds, when \<^verbatim>\<open>.vercel\<close> and \<^verbatim>\<open>dist\<close> are not
  regular files, \<^verbatim>\<open>dist/index.html\<close> is not a directory, and the nested JS path
  either has nothing at it or is a directory in whose listing no name starts with
  \<^verbatim>\<open>AppEntry\<close> and ends with \<^verbatim>\<open>.js\<close>: the run completes; a missing
  \<^verbatim>\<open>dist\<close> leaves the static directory empty; and \<^verbatim>\<open>bundle.js\<close> at the
  static root is the copy of what \<^verbatim>\<open>dist\<close> has at its root under that name (a
  file with the same bytes for a file), nothing if it has nothing.
\<close>

theorem absence_is_skipped:
  assumes fuel: "fuel_for (Dir es) \<le> fuel"
    and vercel: "\<not> is_file (lookup (Dir es) [''.vercel''])"
    and dist: "\<not> is_file (lookup (Dir es) [''dist''])"
    and index: "\<not> is_dir (lookup (Dir es) [''dist'', ''index.html''])"
    and skip: "lookup (Dir es) jsDir = None \<or>
               (\<exists>files. readdirSync jsDir (Dir es) = Inr files \<and> find isAppEntry files = None)"
  shows "\<exists>s'. build_vercel fuel (Dir es) = Some (Done s') \<and>
           (lookup (Dir es) [''dist''] = None \<longrightarrow> lookup s' staticDir = Some (Dir [])) \<and>
           lookup s' (staticDir @ [''bundle.js''])
             = map_option mirror (lookup (Dir es) [''dist'', ''bundle.js''])"
proof -
  from skip have sel: "jsFile (Dir es) = None" and js: "\<not> is_file (lookup (Dir es) jsDir)"
    by (auto simp: jsFile_def readdirSync_def split: option.splits node.splits)
  then have pr: "promoted es = mirrored es"
    by (simp add: promoted_def)
  from index pr have "\<not> is_dir (map_of (promoted es) ''index.html'')"
    by (simp add: map_of_mirrored)
  with vercel[unfolded lookup_single] dist[unfolded lookup_single] sel js have "clean es"
    by (simp add: clean_def)
  with build_vercel_Done_iff[OF fuel, of "packaged es"]
  have run: "build_vercel fuel (Dir es) = Some (Done (packaged es))" by simp
  have "lookup (packaged es) (staticDir @ [''bundle.js''])
      = map_option mirror (lookup (Dir es) [''dist'', ''bundle.js''])"
    using map_of_mirrored[of "''bundle.js''" es] pr
    by (simp add: lookup_packaged_static lookup_single map_of_rewritten_other del: lookup.simps)
  moreover have "lookup (packaged es) staticDir = Some (Dir [])" if "lookup (Dir es) [''dist''] = None"
  proof -
    from that[unfolded lookup_single] have "mirrored es = []" by (simp add: mirrored_def)
    with pr have "rewritten es = []" by (simp add: rewritten_def)
    with lookup_packaged_static[of es "[]"] show ?thesis by simp
  qed
  ultimately show ?thesis using run by simp
qed

text \<open>
  A site with a bundle of its own whose Expo directory has two files, neither of them
  a match, beside an earlier output: the run completes and the static root has the
  bundle of the site. A project without \<^verbatim>\<open>dist\<close>, with an earlier output: the run
  completes and the static directory is empty.
\<close>

theorem absence_is_skipped_witness:
  "(\<exists>s'. build_vercel 6 (Dir plain_site_entries) = Some (Done s') \<and>
      lookup s' (staticDir @ [''bundle.js'']) = Some (File ''console.log(0)'')) \<and>
   (\<exists>s'. build_vercel 1 (Dir no_dist_entries) = Some (Done s') \<and>
      lookup s' staticDir = Some (Dir []) \<and> lookup s' (staticDir @ [''bundle.js'']) = None)"
proof -
  have pre: "fuel_for (Dir plain_site_entries) \<le> 6"
    "\<not> is_file (lookup (Dir plain_site_entries) [''.vercel''])"
    "\<not> is_file (lookup (Dir plain_site_entries) [''dist''])"
    "\<not> is_dir (lookup (Dir plain_site_entries) [''dist'', ''index.html''])"
    by code_simp+
  have "readdirSync jsDir (Dir plain_site_entries) = Inr [''README.md'', ''AppEntry.css'']"
    and "find isAppEntry [''README.md'', ''AppEntry.css''] = None"
    by code_simp+
  then have skip: "lookup (Dir plain_site_entries) jsDir = None \<or>
      (\<exists>files. readdirSync jsDir (Dir plain_site_entries) = Inr files \<and> find isAppEntry files = None)"
    by blast
  have own: "lookup (Dir plain_site_entries) [''dist'', ''bundle.js''] = Some (File ''console.log(0)'')"
    by code_simp
  from absence_is_skipped[OF pre skip, unfolded own]
  have 1: "\<exists>s'. build_vercel 6 (Dir plain_site_entries) = Some (Done s') \<and>
      lookup s' (staticDir @ [''bundle.js'']) = Some (File ''console.log(0)'')"
    by auto
  have pre': "fuel_for (Dir no_dist_entries) \<le> 1"
    "\<not> is_file (lookup (Dir no_dist_entries) [''.vercel''])"
    "\<not> is_file (lookup (Dir no_dist_entries) [''dist''])"
    "\<not> is_dir (lookup (Dir no_dist_entries) [''dist'', ''index.html''])"
    by code_simp+
  have none: "lookup (Dir no_dist_entries) jsDir = None"
    "lookup (Dir no_dist_entries) [''dist''] = None"
    "lookup (Dir no_dist_entries) [''dist'', ''bundle.js''] = None"
    by code_simp+
  from none(1) have skip': "lookup (Dir no_dist_entries) jsDir = None \<or>
      (\<exists>files. readdirSync jsDir (Dir no_dist_entries) = Inr files \<and> find isAppEntry files = None)"
    by (rule disjI1)
  from absence_is_skipped[OF pre' skip', unfolded none]
  have 2: "\<exists>s'. build_vercel 1 (Dir no_dist_entries) = Some (Done s') \<and>
      lookup s' staticDir = Some (Dir []) \<and> lookup s' (staticDir @ [''bundle.js'']) = None"
    by auto
  from 1 2 show ?thesis ..
qed

text \<open>
  The claim as written fails in five ways. A site with a \<^verbatim>\<open>bundle.js\<close> of its own
  and no nested directory: the promotion is skipped and the output has a
  \<^verbatim>\<open>bundle.js\<close> all the same. A project without \<^verbatim>\<open>dist\<close> whose
  \<^verbatim>\<open>.vercel\<close> is a regular file: the first step throws. A project whose
  \<^verbatim>\<open>dist\<close> is a regular file: there is no source directory and no nested
  directory, and the mirror step throws. A site whose \<^verbatim>\<open>index.html\<close> is a
  directory and that has no nested directory: the rewrite step throws. A site with a
  regular file at the nested JS path: there is no directory there, and the promotion step
  throws.
\<close>

theorem absence_counterexample:
  "lookup (Dir own_bundle_entries) jsDir = None \<and>
   build_vercel 2 (Dir own_bundle_entries) = Some (Done own_bundle_out) \<and>
   lookup own_bundle_out (staticDir @ [''bundle.js'']) = Some (File ''console.log(0)'') \<and>
   lookup token_only [''dist''] = None \<and>
   build_vercel 1 token_only = Some (Crashed ENOTDIR token_only) \<and>
   lookup (Dir dist_file_entries) [''dist''] = Some (File ''archive'') \<and>
   lookup (Dir dist_file_entries) jsDir = None \<and>
   build_vercel 1 (Dir dist_file_entries)
     = Some (Crashed EISDIR (with_output dist_file_entries [] [])) \<and>
   lookup (Dir index_dir_entries) jsDir = None \<and>
   build_vercel 2 (Dir index_dir_entries)
     = Some (Crashed EISDIR (with_output index_dir_entries [(''index.html'', Dir [])] [])) \<and>
   lookup (Dir web_file_entries) jsDir = Some (File ''notes'') \<and>
   build_vercel 5 (Dir web_file_entries)
     = Some (Crashed ENOTDIR (with_output web_file_entries [expo (File ''notes'')] []))"
  by code_simp



text \<open>
  Claim C7 (idempotence). A second run on the tree a completed run has left completes
  and leaves that same tree: the output of the second run is the output of the first.
\<close>

theorem second_run_changes_nothing:
  assumes fuel: "fuel_for fs \<le> fuel"
    and run: "build_vercel fuel fs = Some (Done s1)"
  shows "build_vercel fuel s1 = Some (Done s1)"
proof -
  from fuel run obtain es where es: "fs = Dir es" "clean es" "s1 = packaged es"
    by (rule build_vercel_DoneD)
  define out where "out = Dir [(''static'', Dir (rewritten es)), (''config'', Dir []),
           (''config.json'', File (JSON_stringify_2 config))]"
  define es' where "es' = AList.update ''.vercel'' (Dir (kept_vercel es @ [(''output'', out)])) es"
  have s1: "packaged es = Dir es'"
    by (simp add: packaged_def finished_def outstate_def es'_def out_def)
  have dist: "map_of es' ''dist'' = map_of es ''dist''"
    by (simp add: es'_def update_conv')
  have vercel: "map_of es' ''.vercel'' = Some (Dir (kept_vercel es @ [(''output'', out)]))"
    by (simp add: es'_def update_conv')
  have kept: "kept_vercel es' = kept_vercel es"
    by (simp add: kept_vercel_def[of es'] vercel delete_append_last)
  note same = closed_form_cong[OF dist]
  have js: "lookup (Dir es') jsDir = lookup (Dir es) jsDir"
    using same(3)[of "[]"] by simp
  from es(2) have "clean es'"
    unfolding clean_def dist vercel js same by simp
  moreover have "packaged es' = Dir es'"
  proof -
    have "packaged es' = Dir (AList.update ''.vercel'' (Dir (kept_vercel es @ [(''output'', out)])) es')"
      by (simp add: packaged_def finished_def outstate_def kept same out_def)
    also have "\<dots> = Dir es'"
      by (simp add: es'_def)
    finally show ?thesis .
  qed
  moreover from fuel es have "fuel_for (Dir es') \<le> fuel"
    by (simp add: fuel_for_def lookup_single dist del: lookup.simps)
  ultimately have "build_vercel fuel (Dir es') = Some (Done (Dir es'))"
    using build_vercel_Done_iff[of es' fuel "Dir es'"] by simp
  with es s1 show ?thesis by simp
qed

text \<open>Two runs on the example site.\<close>

theorem second_run_witness:
  "\<exists>s1. build_vercel 6 site = Some (Done s1) \<and> build_vercel 6 s1 = Some (Done s1)"
  using second_run_changes_nothing[OF site_fuel site_run] site_run by simp

text \<open>
  Claim C8 (the config directory). After a completed run \<^verbatim>\<open>.vercel/output/config\<close>
  is an empty directory, and the manifest is the file \<^verbatim>\<open>config.json\<close> directly below
  the output root.
\<close>

theorem config_dir_left_empty:
  assumes fuel: "fuel_for fs \<le> fuel"
    and run: "build_vercel fuel fs = Some (Done s')"
  shows "lookup s' (outputDir @ [''config'']) = Some (Dir []) \<and>
         lookup s' (outputDir @ [''config'', ''config.json'']) = None \<and>
         lookup s' (outputDir @ [''config.json'']) = Some (File (JSON_stringify_2 config))"
proof -
  from fuel run obtain es where es: "fs = Dir es" "clean es" "s' = packaged es"
    by (rule build_vercel_DoneD)
  then show ?thesis
    by (simp add: lookup_packaged_output)
qed

text \<open>The output of the example site.\<close>

theorem config_dir_witness:
  "\<exists>s'. build_vercel 6 site = Some (Done s') \<and>
     lookup s' (outputDir @ [''config'']) = Some (Dir []) \<and>
     lookup s' (outputDir @ [''config.json'']) = Some (File (JSON_stringify_2 config))"
  using config_dir_left_empty[OF site_fuel site_run] site_run by simp

text \<open>
  Claim C9 (the source tree is never modified). On every tree and with enough fuel the
  script returns, finished or stopped by an exception, and the tree at \<^verbatim>\<open>dist\<close> is
  then the one it was before the run.
\<close>

theorem dist_never_modified:
  assumes "fuel_for fs \<le> fuel"
  shows "\<exists>r. build_vercel fuel fs = Some r \<and> lookup (state_of r) [''dist''] = lookup fs [''dist'']"
  unfolding build_vercel_def
proof (rule andThen_keeps[OF reset_output_keeps])
  fix s1 assume s1: "lookup s1 [''dist''] = lookup fs [''dist'']"
  with assms have f1: "fuel_for s1 \<le> fuel" by (simp add: fuel_for_def)
  show "\<exists>res. andThen (mirror_dist fuel s1)
          (\<lambda>s2. andThen (promote_bundle s2) (\<lambda>s3. andThen (rewrite_index s3) emit_config)) = Some res \<and>
        lookup (state_of res) [''dist''] = lookup fs [''dist'']"
  proof (rule andThen_keeps)
    from mirror_dist_keeps[OF f1] s1
    show "\<exists>res. mirror_dist fuel s1 = Some res \<and> lookup (state_of res) [''dist''] = lookup fs [''dist'']"
      by simp
  next
    fix s2 assume s2: "lookup s2 [''dist''] = lookup fs [''dist'']"
    show "\<exists>res. andThen (promote_bundle s2) (\<lambda>s3. andThen (rewrite_index s3) emit_config) = Some res \<and>
        lookup (state_of res) [''dist''] = lookup fs [''dist'']"
    proof (rule andThen_keeps)
      from promote_bundle_keeps[OF dist_parallel(4), of s2] s2
      show "\<exists>res. promote_bundle s2 = Some res \<and> lookup (state_of res) [''dist''] = lookup fs [''dist'']"
        by simp
    next
      fix s3 assume s3: "lookup s3 [''dist''] = lookup fs [''dist'']"
      from rewrite_emit_keeps[of "[''dist'']" s3] dist_parallel(3,4)[of "[''index.html'']"]
        dist_parallel(3)[of "[''config.json'']"] s3
      show "\<exists>res. andThen (rewrite_index s3) emit_config = Some res \<and>
          lookup (state_of res) [''dist''] = lookup fs [''dist'']"
        by (simp add: indexPath_def)
    qed
  qed
qed

text \<open>The run on the example site.\<close>

theorem dist_never_modified_witness:
  "\<exists>r. build_vercel 6 site = Some r \<and> lookup (state_of r) [''dist''] = lookup site [''dist'']"
  using dist_never_modified[OF site_fuel] .



end
